theory Spec2Isabelle
  imports Main
begin

section \<open>Errors and outcomes\<close>

text \<open>
  Go errors are values. The sentinel errors of the googlecloud package are constructors;
  an error produced by an external library (the Pub/Sub client, the NATS connection, a
  codec) is \<open>External\<close> with its text; \<open>Wrap e msg\<close> is
  \<^verbatim>\<open>errors.Wrap(e, msg)\<close> of github.com/pkg/errors, whose cause is \<open>e\<close>.
\<close>

datatype error =
    ErrSubscriberClosed
  | ErrSubscriptionDoesNotExist
  | ErrTopicDoesNotExist
  | External string
  | Wrap error string

text \<open>
  A Go call either returns its results or panics. The only panic the modelled code can
  raise itself is the dereference of a nil pointer.
\<close>

datatype 'a outcome = Returned 'a | Panicked

section \<open>The Pub/Sub client (googlecloud/subscriber.go)\<close>

text \<open>
  \<^verbatim>\<open>*pubsub.Subscription\<close> and \<^verbatim>\<open>*pubsub.Topic\<close> are handles of the external client
  library; a nil pointer is \<open>None\<close>. The code writes one field of the subscription
  handle, \<^verbatim>\<open>ReceiveSettings\<close>. \<^verbatim>\<open>pubsub.SubscriptionConfig\<close> has the field
  \<^verbatim>\<open>Topic\<close>, which the code writes, and others it passes through unchanged.
\<close>

record 'rs subscription_handle =
  sub_name :: string
  sub_ReceiveSettings :: 'rs

record topic_handle =
  topic_name :: string

record 'o subscription_config =
  Topic :: "topic_handle option"
  Options :: 'o

text \<open>
  The client library is not part of the repository, so its operations are parameters:
  a record of functions over a broker state \<open>'b\<close> the code never inspects. Each remote
  call returns the new broker state and Go's pair of a value and an error.
  \<^verbatim>\<open>client.Subscription(name)\<close> and \<^verbatim>\<open>client.Topic(name)\<close> only build a handle.
\<close>

record ('b, 'rs, 'o) client =
  client_Subscription :: "string \<Rightarrow> 'rs subscription_handle"
  client_Topic :: "string \<Rightarrow> topic_handle"
  sub_Exists :: "'b \<Rightarrow> 'rs subscription_handle \<Rightarrow> 'b \<times> bool \<times> error option"
  topic_Exists :: "'b \<Rightarrow> topic_handle \<Rightarrow> 'b \<times> bool \<times> error option"
  client_CreateTopic :: "'b \<Rightarrow> string \<Rightarrow> 'b \<times> topic_handle option \<times> error option"
  client_CreateSubscription ::
    "'b \<Rightarrow> string \<Rightarrow> 'o subscription_config \<Rightarrow> 'b \<times> 'rs subscription_handle option \<times> error option"
  client_Close :: "'b \<Rightarrow> 'b \<times> error option"

text \<open>The remote calls the code makes, recorded in order with the error each returned.\<close>

datatype 'o call =
    SubscriptionExists string
  | TopicExists string
  | CreateTopic string
  | CreateSubscription string "'o subscription_config"
  | ClientClose

record ('rs, 'o) subscriber_config =
  SubscriptionName :: "string \<Rightarrow> string"
  DoNotCreateSubscriptionIfMissing :: bool
  DoNotCreateTopicIfMissing :: bool
  ReceiveSettings :: 'rs
  SubscriptionConfig :: "'o subscription_config"

definition DefaultSubscriptionName :: "string \<Rightarrow> string" where
  "DefaultSubscriptionName topic = topic"

definition DefaultSubscriptionNameWithSuffix :: "string \<Rightarrow> string \<Rightarrow> string" where
  "DefaultSubscriptionNameWithSuffix suffix topic = topic @ suffix"

section \<open>The subscription registry: \<^verbatim>\<open>Subscriber.subscription\<close>\<close>

text \<open>
  The part of the \<^verbatim>\<open>Subscriber\<close> struct that \<^verbatim>\<open>subscription\<close> reads and writes: the map
  \<^verbatim>\<open>activeSubscriptions\<close> (a Go map of pointers can hold nil under a key, hence the
  option inside the map), the broker behind \<^verbatim>\<open>client\<close>, and the log of remote calls.
\<close>

record ('b, 'rs, 'o) registry =
  activeSubscriptions :: "string \<rightharpoonup> 'rs subscription_handle option"
  broker :: 'b
  calls :: "('o call \<times> error option) list"

definition call_sub_Exists ::
  "('b, 'rs, 'o) client \<Rightarrow> ('b, 'rs, 'o) registry \<Rightarrow> 'rs subscription_handle
    \<Rightarrow> ('b, 'rs, 'o) registry \<times> bool \<times> error option" where
  "call_sub_Exists c r sub =
     (case sub_Exists c (broker r) sub of (b, ex, err) \<Rightarrow>
        (r\<lparr>broker := b, calls := calls r @ [(SubscriptionExists (sub_name sub), err)]\<rparr>, ex, err))"

definition call_topic_Exists ::
  "('b, 'rs, 'o) client \<Rightarrow> ('b, 'rs, 'o) registry \<Rightarrow> topic_handle
    \<Rightarrow> ('b, 'rs, 'o) registry \<times> bool \<times> error option" where
  "call_topic_Exists c r t =
     (case topic_Exists c (broker r) t of (b, ex, err) \<Rightarrow>
        (r\<lparr>broker := b, calls := calls r @ [(TopicExists (topic_name t), err)]\<rparr>, ex, err))"

definition call_CreateTopic ::
  "('b, 'rs, 'o) client \<Rightarrow> ('b, 'rs, 'o) registry \<Rightarrow> string
    \<Rightarrow> ('b, 'rs, 'o) registry \<times> topic_handle option \<times> error option" where
  "call_CreateTopic c r topicName =
     (case client_CreateTopic c (broker r) topicName of (b, t, err) \<Rightarrow>
        (r\<lparr>broker := b, calls := calls r @ [(CreateTopic topicName, err)]\<rparr>, t, err))"

definition call_CreateSubscription ::
  "('b, 'rs, 'o) client \<Rightarrow> ('b, 'rs, 'o) registry \<Rightarrow> string \<Rightarrow> 'o subscription_config
    \<Rightarrow> ('b, 'rs, 'o) registry \<times> 'rs subscription_handle option \<times> error option" where
  "call_CreateSubscription c r subscriptionName config =
     (case client_CreateSubscription c (broker r) subscriptionName config of (b, sub, err) \<Rightarrow>
        (r\<lparr>broker := b, calls := calls r @ [(CreateSubscription subscriptionName config, err)]\<rparr>,
         sub, err))"

text \<open>
  The deferred function of lines 217 to 221 runs when the function returns and when it
  panics, on the named results \<open>sub\<close> and \<open>err\<close> as they stand: it stores \<open>sub\<close> under
  the name when \<open>err\<close> is nil.
\<close>

definition deferred_store ::
  "string \<Rightarrow> 'rs subscription_handle option \<Rightarrow> error option
    \<Rightarrow> ('b, 'rs, 'o) registry \<Rightarrow> ('b, 'rs, 'o) registry" where
  "deferred_store subscriptionName sub err r =
     (if err = None
      then r\<lparr>activeSubscriptions := (activeSubscriptions r)(subscriptionName \<mapsto> sub)\<rparr>
      else r)"

type_synonym ('b, 'rs, 'o) resolved =
  "('b, 'rs, 'o) registry \<times> ('rs subscription_handle option \<times> error option) outcome"

definition return_deferred ::
  "string \<Rightarrow> ('b, 'rs, 'o) registry \<Rightarrow> 'rs subscription_handle option \<Rightarrow> error option
    \<Rightarrow> ('b, 'rs, 'o) resolved" where
  "return_deferred subscriptionName r sub err =
     (deferred_store subscriptionName sub err r, Returned (sub, err))"

text \<open>
  Lines 254 to 259. The assignment to \<^verbatim>\<open>sub.ReceiveSettings\<close> on line 257 comes before
  any look at \<open>err\<close>: on a nil \<open>sub\<close> it panics, and the deferred function then sees the
  nil \<open>sub\<close> and the \<open>err\<close> that \<^verbatim>\<open>CreateSubscription\<close> returned.
\<close>

definition create_subscription ::
  "('b, 'rs, 'o) client \<Rightarrow> ('rs, 'o) subscriber_config \<Rightarrow> ('b, 'rs, 'o) registry
    \<Rightarrow> string \<Rightarrow> topic_handle option \<Rightarrow> ('b, 'rs, 'o) resolved" where
  "create_subscription c cfg r subscriptionName t =
     (let config = (SubscriptionConfig cfg)\<lparr>Topic := t\<rparr> in
      case call_CreateSubscription c r subscriptionName config of (r', sub, err) \<Rightarrow>
        (case sub of
           None \<Rightarrow> (deferred_store subscriptionName None err r', Panicked)
         | Some h \<Rightarrow>
             return_deferred subscriptionName r'
               (Some (h\<lparr>sub_ReceiveSettings := ReceiveSettings cfg\<rparr>)) err))"

text \<open>Lines 237 to 259: the topic is looked up, created when missing and allowed.\<close>

definition ensure_topic ::
  "('b, 'rs, 'o) client \<Rightarrow> ('rs, 'o) subscriber_config \<Rightarrow> ('b, 'rs, 'o) registry
    \<Rightarrow> string \<Rightarrow> string \<Rightarrow> ('b, 'rs, 'o) resolved" where
  "ensure_topic c cfg r subscriptionName topicName =
     (let t = client_Topic c topicName in
      case call_topic_Exists c r t of (r1, exists, err) \<Rightarrow>
        (case err of
           Some e \<Rightarrow>
             return_deferred subscriptionName r1 None
               (Some (Wrap e (''could not check if topic '' @ topicName @ '' exists'')))
         | None \<Rightarrow>
             if \<not> exists \<and> DoNotCreateTopicIfMissing cfg
             then return_deferred subscriptionName r1 None
                    (Some (Wrap ErrTopicDoesNotExist topicName))
             else if \<not> exists
             then (case call_CreateTopic c r1 topicName of (r2, t', err') \<Rightarrow>
                     (case err' of
                        Some e \<Rightarrow>
                          return_deferred subscriptionName r2 None
                            (Some (Wrap e ''could not create topic for subscription''))
                      | None \<Rightarrow> create_subscription c cfg r2 subscriptionName t'))
             else create_subscription c cfg r1 subscriptionName (Some t)))"

text \<open>Lines 215 to 260: the path taken when the name is not in the map.\<close>

definition slow_path ::
  "('b, 'rs, 'o) client \<Rightarrow> ('rs, 'o) subscriber_config \<Rightarrow> ('b, 'rs, 'o) registry
    \<Rightarrow> string \<Rightarrow> string \<Rightarrow> ('b, 'rs, 'o) resolved" where
  "slow_path c cfg r subscriptionName topicName =
     (let sub = client_Subscription c subscriptionName in
      case call_sub_Exists c r sub of (r1, exists, err) \<Rightarrow>
        (case err of
           Some e \<Rightarrow>
             return_deferred subscriptionName r1 None
               (Some (Wrap e (''could not check if subscription '' @ subscriptionName @ '' exists'')))
         | None \<Rightarrow>
             if exists then return_deferred subscriptionName r1 (Some sub) None
             else if DoNotCreateSubscriptionIfMissing cfg
             then return_deferred subscriptionName r1 None
                    (Some (Wrap ErrSubscriptionDoesNotExist subscriptionName))
             else ensure_topic c cfg r1 subscriptionName topicName))"

text \<open>
  Lines 207 to 213, then the slow path. One caller at a time: the read lock and the
  write lock are free when it asks for them, so taking and releasing them changes nothing.
\<close>

definition subscription ::
  "('b, 'rs, 'o) client \<Rightarrow> ('rs, 'o) subscriber_config \<Rightarrow> ('b, 'rs, 'o) registry
    \<Rightarrow> string \<Rightarrow> string \<Rightarrow> ('b, 'rs, 'o) resolved" where
  "subscription c cfg r subscriptionName topicName =
     (case activeSubscriptions r subscriptionName of
        Some sub \<Rightarrow> (r, Returned (sub, None))
      | None \<Rightarrow> slow_path c cfg r subscriptionName topicName)"

section \<open>A simulated Pub/Sub service\<close>

text \<open>
  A client to run the code against: the service keeps the subscriptions (each with the
  topic it is bound to) and the topics it has, and a script of faults, one entry per
  coming remote call (\<open>Some e\<close> makes that call fail with \<open>e\<close>; past the end of the
  script no call fails). As the client library does, a failed creation returns a nil
  handle with the error, creating a name that exists fails, and a subscription needs a
  topic that exists. Once the client has been closed its connection is gone: every
  later call fails, a second \<^verbatim>\<open>Close\<close> included.
\<close>

record sim_broker =
  sim_subscriptions :: "(string \<times> string) list"
  sim_topics :: "string list"
  sim_faults :: "error option list"
  sim_closed :: bool

definition next_fault :: "sim_broker \<Rightarrow> sim_broker \<times> error option" where
  "next_fault b =
     (if sim_closed b then (b, Some (External ''the client connection is closing''))
      else case sim_faults b of [] \<Rightarrow> (b, None) | f # fs \<Rightarrow> (b\<lparr>sim_faults := fs\<rparr>, f))"

definition sim_sub_Exists ::
  "sim_broker \<Rightarrow> 'rs subscription_handle \<Rightarrow> sim_broker \<times> bool \<times> error option" where
  "sim_sub_Exists b sub =
     (case next_fault b of
        (b', Some e) \<Rightarrow> (b', False, Some e)
      | (b', None) \<Rightarrow> (b', sub_name sub \<in> set (map fst (sim_subscriptions b')), None))"

definition sim_topic_Exists ::
  "sim_broker \<Rightarrow> topic_handle \<Rightarrow> sim_broker \<times> bool \<times> error option" where
  "sim_topic_Exists b t =
     (case next_fault b of
        (b', Some e) \<Rightarrow> (b', False, Some e)
      | (b', None) \<Rightarrow> (b', topic_name t \<in> set (sim_topics b'), None))"

definition sim_CreateTopic ::
  "sim_broker \<Rightarrow> string \<Rightarrow> sim_broker \<times> topic_handle option \<times> error option" where
  "sim_CreateTopic b topicName =
     (case next_fault b of
        (b', Some e) \<Rightarrow> (b', None, Some e)
      | (b', None) \<Rightarrow>
          if topicName \<in> set (sim_topics b')
          then (b', None, Some (External ''AlreadyExists''))
          else (b'\<lparr>sim_topics := sim_topics b' @ [topicName]\<rparr>,
                Some \<lparr>topic_name = topicName\<rparr>, None))"

definition sim_CreateSubscription ::
  "'rs \<Rightarrow> sim_broker \<Rightarrow> string \<Rightarrow> 'o subscription_config
    \<Rightarrow> sim_broker \<times> 'rs subscription_handle option \<times> error option" where
  "sim_CreateSubscription rs b subscriptionName config =
     (case Topic config of
        None \<Rightarrow> (b, None, Some (External ''pubsub: require non-nil Topic''))
      | Some t \<Rightarrow>
          (case next_fault b of
             (b', Some e) \<Rightarrow> (b', None, Some e)
           | (b', None) \<Rightarrow>
               if subscriptionName \<in> set (map fst (sim_subscriptions b'))
               then (b', None, Some (External ''AlreadyExists''))
               else if topic_name t \<notin> set (sim_topics b')
               then (b', None, Some (External ''NotFound''))
               else (b'\<lparr>sim_subscriptions :=
                          sim_subscriptions b' @ [(subscriptionName, topic_name t)]\<rparr>,
                     Some \<lparr>sub_name = subscriptionName, sub_ReceiveSettings = rs\<rparr>, None)))"

definition sim_Close :: "sim_broker \<Rightarrow> sim_broker \<times> error option" where
  "sim_Close b = (case next_fault b of (b', err) \<Rightarrow> (b'\<lparr>sim_closed := True\<rparr>, err))"

definition sim_client :: "'rs \<Rightarrow> (sim_broker, 'rs, 'o) client" where
  "sim_client rs =
     \<lparr>client_Subscription = (\<lambda>name. \<lparr>sub_name = name, sub_ReceiveSettings = rs\<rparr>),
      client_Topic = (\<lambda>name. \<lparr>topic_name = name\<rparr>),
      sub_Exists = sim_sub_Exists,
      topic_Exists = sim_topic_Exists,
      client_CreateTopic = sim_CreateTopic,
      client_CreateSubscription = sim_CreateSubscription rs,
      client_Close = sim_Close\<rparr>"

definition empty_broker :: "error option list \<Rightarrow> sim_broker" where
  "empty_broker faults = \<lparr>sim_subscriptions = [], sim_topics = [], sim_faults = faults,
                          sim_closed = False\<rparr>"

text \<open>The registry of a new subscriber (\<^verbatim>\<open>NewSubscriber\<close>, line 87): an empty map.\<close>

definition new_registry :: "'b \<Rightarrow> ('b, 'rs, 'o) registry" where
  "new_registry b = \<lparr>activeSubscriptions = Map.empty, broker = b, calls = []\<rparr>"

text \<open>
  A configuration for concrete runs: the default subscription name, the two policy
  flags as given, receive settings \<open>7\<close> (the simulated client hands out handles with
  receive settings \<open>0\<close>), and no further subscription options.
\<close>

definition example_config :: "bool \<Rightarrow> bool \<Rightarrow> (nat, unit) subscriber_config" where
  "example_config noSubscription noTopic =
     \<lparr>SubscriptionName = DefaultSubscriptionName,
      DoNotCreateSubscriptionIfMissing = noSubscription,
      DoNotCreateTopicIfMissing = noTopic,
      ReceiveSettings = 7,
      SubscriptionConfig = \<lparr>Topic = None, Options = ()\<rparr>\<rparr>"

lemmas sim_defs =
  sim_client_def sim_sub_Exists_def sim_topic_Exists_def sim_CreateTopic_def
  sim_CreateSubscription_def sim_Close_def next_fault_def empty_broker_def
  new_registry_def example_config_def DefaultSubscriptionName_def

lemmas call_defs =
  call_sub_Exists_def call_topic_Exists_def call_CreateTopic_def call_CreateSubscription_def

lemmas registry_defs =
  subscription_def slow_path_def ensure_topic_def create_subscription_def
  return_deferred_def deferred_store_def call_defs

section \<open>Resolving a subscription, one caller at a time\<close>

subsection \<open>What a resolve does to the map\<close>

text \<open>
  Whatever the client answers, the slow path for a name touches the map at that name
  only: a successful return stores the returned handle, a returned error stores
  nothing, and a panic stores nothing unless \<^verbatim>\<open>CreateSubscription\<close> handed back nil
  for both the handle and the error.
\<close>

definition cache_effect ::
  "string \<Rightarrow> ('b, 'rs, 'o) registry \<Rightarrow> ('b, 'rs, 'o) resolved \<Rightarrow> bool" where
  "cache_effect name r res =
     (case res of
        (r', Returned (sub, None)) \<Rightarrow>
          activeSubscriptions r' = (activeSubscriptions r)(name \<mapsto> sub)
      | (r', Returned (sub, Some e)) \<Rightarrow> activeSubscriptions r' = activeSubscriptions r
      | (r', Panicked) \<Rightarrow>
          activeSubscriptions r' = activeSubscriptions r \<or>
          activeSubscriptions r' = (activeSubscriptions r)(name \<mapsto> None))"

lemma cache_effect_return:
  "activeSubscriptions r1 = activeSubscriptions r \<Longrightarrow>
   cache_effect name r (return_deferred name r1 sub err)"
  by (cases err) (simp_all add: cache_effect_def return_deferred_def deferred_store_def)

lemma cache_effect_create:
  assumes a: "activeSubscriptions r1 = activeSubscriptions r"
  shows "cache_effect name r (create_subscription c cfg r1 name t)"
proof -
  obtain b sub err where
    cs: "client_CreateSubscription c (broker r1) name ((SubscriptionConfig cfg)\<lparr>Topic := t\<rparr>)
           = (b, sub, err)"
    by (metis prod_cases3)
  show ?thesis
  proof (cases sub)
    case None
    then show ?thesis using a cs
      by (cases err) (simp_all add: create_subscription_def call_CreateSubscription_def
          cache_effect_def deferred_store_def)
  next
    case (Some h)
    then show ?thesis using a cs
      by (simp add: create_subscription_def call_CreateSubscription_def cache_effect_return)
  qed
qed

lemma cache_effect_ensure_topic:
  "activeSubscriptions r1 = activeSubscriptions r \<Longrightarrow>
   cache_effect name r (ensure_topic c cfg r1 name topic)"
  unfolding ensure_topic_def Let_def call_topic_Exists_def call_CreateTopic_def
  by (auto split: prod.splits option.splits intro!: cache_effect_return cache_effect_create)

lemma cache_effect_slow_path:
  "cache_effect name r (slow_path c cfg r name topic)"
  unfolding slow_path_def Let_def call_sub_Exists_def
  by (auto split: prod.splits option.splits intro!: cache_effect_return cache_effect_ensure_topic)

text \<open>
  With one caller at a time: after a successful return of \<^verbatim>\<open>subscription(name, topic)\<close>
  the map holds the returned handle under \<open>name\<close>, and a call with the same name in
  that state takes the fast path: it returns the same handle and leaves the whole
  registry as it was, so the broker is not called and the call log does not grow. A
  resolve that returns an error leaves the map as it was. (Resolves that overlap are
  treated below, with the lock.)
\<close>

lemma subscription_cache_alone:
  "(subscription c cfg r name topic = (r', Returned (sub, None)) \<longrightarrow>
      activeSubscriptions r' name = Some sub \<and>
      (\<forall>topic'. subscription c cfg r' name topic' = (r', Returned (sub, None)))) \<and>
   (subscription c cfg r name topic = (r', Returned (sub, Some e)) \<longrightarrow>
      activeSubscriptions r' = activeSubscriptions r)"
proof (cases "activeSubscriptions r name")
  case None
  have "cache_effect name r (subscription c cfg r name topic)"
    using None cache_effect_slow_path [of name r c cfg topic] by (simp add: subscription_def)
  then show ?thesis
    by (auto simp: cache_effect_def subscription_def)
next
  case (Some s)
  then show ?thesis by (auto simp: subscription_def)
qed

subsection \<open>The policy for a missing subscription\<close>

text \<open>
  Claim C2. A first resolve of a name (nothing in the map under it) whose subscription
  the broker reports missing (\<^verbatim>\<open>Exists\<close> returns false and no error):
  \<^item> with \<^verbatim>\<open>DoNotCreateSubscriptionIfMissing\<close> it returns \<^verbatim>\<open>ErrSubscriptionDoesNotExist\<close>
    wrapped with the name, after the one existence query and nothing else;
  \<^item> otherwise, when the topic is reported missing and \<^verbatim>\<open>DoNotCreateTopicIfMissing\<close> is
    set, it returns \<^verbatim>\<open>ErrTopicDoesNotExist\<close> wrapped with the topic name, after the two
    existence queries and nothing else;
  \<^item> otherwise the topic is created when it is missing, and \<^verbatim>\<open>CreateSubscription\<close> is
    called with the name and the configured \<^verbatim>\<open>SubscriptionConfig\<close> whose \<^verbatim>\<open>Topic\<close> is
    that topic (the handle \<^verbatim>\<open>CreateTopic\<close> returned, or the existing topic's); when the
    creations succeed the new handle is returned with the configured receive settings
    and stored in the map.
\<close>

theorem subscription_missing_policy:
  fixes c :: "('b, 'rs, 'o) client" and cfg :: "('rs, 'o) subscriber_config"
    and r :: "('b, 'rs, 'o) registry" and subscriptionName topicName :: string
  defines "sub \<equiv> client_Subscription c subscriptionName"
    and "t \<equiv> client_Topic c topicName"
    and "config \<equiv> \<lambda>t'. (SubscriptionConfig cfg)\<lparr>Topic := t'\<rparr>"
  defines "q1 \<equiv> [(SubscriptionExists (sub_name sub), None)]"
    and "q2 \<equiv> [(SubscriptionExists (sub_name sub), None), (TopicExists (topic_name t), None)]"
  assumes miss: "activeSubscriptions r subscriptionName = None"
    and absent: "sub_Exists c (broker r) sub = (b1, False, None)"
  shows
    "(DoNotCreateSubscriptionIfMissing cfg \<longrightarrow>
        subscription c cfg r subscriptionName topicName =
          (r\<lparr>broker := b1, calls := calls r @ q1\<rparr>,
           Returned (None, Some (Wrap ErrSubscriptionDoesNotExist subscriptionName)))) \<and>
     (\<not> DoNotCreateSubscriptionIfMissing cfg \<and> DoNotCreateTopicIfMissing cfg \<and>
      topic_Exists c b1 t = (b2, False, None) \<longrightarrow>
        subscription c cfg r subscriptionName topicName =
          (r\<lparr>broker := b2, calls := calls r @ q2\<rparr>,
           Returned (None, Some (Wrap ErrTopicDoesNotExist topicName)))) \<and>
     (\<not> DoNotCreateSubscriptionIfMissing cfg \<and> \<not> DoNotCreateTopicIfMissing cfg \<and>
      topic_Exists c b1 t = (b2, False, None) \<and>
      client_CreateTopic c b2 topicName = (b3, t', None) \<and>
      client_CreateSubscription c b3 subscriptionName (config t') = (b4, Some h, None) \<longrightarrow>
        subscription c cfg r subscriptionName topicName =
          (r\<lparr>activeSubscriptions := (activeSubscriptions r)
                (subscriptionName \<mapsto> Some (h\<lparr>sub_ReceiveSettings := ReceiveSettings cfg\<rparr>)),
              broker := b4,
              calls := calls r @ q2 @
                [(CreateTopic topicName, None),
                 (CreateSubscription subscriptionName (config t'), None)]\<rparr>,
           Returned (Some (h\<lparr>sub_ReceiveSettings := ReceiveSettings cfg\<rparr>), None))) \<and>
     (\<not> DoNotCreateSubscriptionIfMissing cfg \<and>
      topic_Exists c b1 t = (b2, True, None) \<and>
      client_CreateSubscription c b2 subscriptionName (config (Some t)) = (b4, Some h, None) \<longrightarrow>
        subscription c cfg r subscriptionName topicName =
          (r\<lparr>activeSubscriptions := (activeSubscriptions r)
                (subscriptionName \<mapsto> Some (h\<lparr>sub_ReceiveSettings := ReceiveSettings cfg\<rparr>)),
              broker := b4,
              calls := calls r @ q2 @
                [(CreateSubscription subscriptionName (config (Some t)), None)]\<rparr>,
           Returned (Some (h\<lparr>sub_ReceiveSettings := ReceiveSettings cfg\<rparr>), None)))"
proof -
  have sp: "subscription c cfg r subscriptionName topicName =
      slow_path c cfg r subscriptionName topicName"
    using miss by (simp add: subscription_def)
  have a: "DoNotCreateSubscriptionIfMissing cfg \<Longrightarrow>
      slow_path c cfg r subscriptionName topicName =
        (r\<lparr>broker := b1, calls := calls r @ q1\<rparr>,
         Returned (None, Some (Wrap ErrSubscriptionDoesNotExist subscriptionName)))"
    using absent
    by (simp add: slow_path_def call_sub_Exists_def return_deferred_def deferred_store_def
        sub_def q1_def)
  have e: "\<not> DoNotCreateSubscriptionIfMissing cfg \<Longrightarrow>
      slow_path c cfg r subscriptionName topicName =
        ensure_topic c cfg (r\<lparr>broker := b1, calls := calls r @ q1\<rparr>) subscriptionName topicName"
    using absent by (simp add: slow_path_def call_sub_Exists_def sub_def q1_def)
  have b: "DoNotCreateTopicIfMissing cfg \<Longrightarrow> topic_Exists c b1 t = (b2, False, None) \<Longrightarrow>
      ensure_topic c cfg (r\<lparr>broker := b1, calls := calls r @ q1\<rparr>) subscriptionName topicName =
        (r\<lparr>broker := b2, calls := calls r @ q2\<rparr>,
         Returned (None, Some (Wrap ErrTopicDoesNotExist topicName)))"
    by (simp add: ensure_topic_def call_topic_Exists_def return_deferred_def deferred_store_def
        t_def q1_def q2_def Let_def)
  have cr: "\<And>r0 t0 b0.
      client_CreateSubscription c (broker r0) subscriptionName (config t0) = (b0, Some h, None) \<Longrightarrow>
      create_subscription c cfg r0 subscriptionName t0 =
        (r0\<lparr>activeSubscriptions := (activeSubscriptions r0)
                (subscriptionName \<mapsto> Some (h\<lparr>sub_ReceiveSettings := ReceiveSettings cfg\<rparr>)),
              broker := b0,
              calls := calls r0 @ [(CreateSubscription subscriptionName (config t0), None)]\<rparr>,
         Returned (Some (h\<lparr>sub_ReceiveSettings := ReceiveSettings cfg\<rparr>), None))"
    by (simp add: create_subscription_def call_CreateSubscription_def return_deferred_def
        deferred_store_def config_def)
  have c1: "\<not> DoNotCreateTopicIfMissing cfg \<Longrightarrow> topic_Exists c b1 t = (b2, False, None) \<Longrightarrow>
      client_CreateTopic c b2 topicName = (b3, t', None) \<Longrightarrow>
      ensure_topic c cfg (r\<lparr>broker := b1, calls := calls r @ q1\<rparr>) subscriptionName topicName =
        create_subscription c cfg
          (r\<lparr>broker := b3, calls := calls r @ q2 @ [(CreateTopic topicName, None)]\<rparr>)
          subscriptionName t'"
    by (simp add: ensure_topic_def call_topic_Exists_def call_CreateTopic_def t_def q1_def q2_def
        Let_def)
  have c2: "topic_Exists c b1 t = (b2, True, None) \<Longrightarrow>
      ensure_topic c cfg (r\<lparr>broker := b1, calls := calls r @ q1\<rparr>) subscriptionName topicName =
        create_subscription c cfg (r\<lparr>broker := b2, calls := calls r @ q2\<rparr>)
          subscriptionName (Some t)"
    by (simp add: ensure_topic_def call_topic_Exists_def t_def q1_def q2_def Let_def)
  show ?thesis
    using sp a e b c1 c2 by (simp add: cr)
qed

text \<open>
  The four cases at the simulated service, topic and subscription \<open>orders\<close>: both
  missing and subscriptions not to be created; both missing and topics not to be
  created; both missing and both created; the topic there and the subscription created.
\<close>

theorem subscription_missing_policy_witness:
  "subscription (sim_client 0) (example_config True False) (new_registry (empty_broker []))
       ''orders'' ''orders'' =
     (\<lparr>activeSubscriptions = Map.empty, broker = empty_broker [],
       calls = [(SubscriptionExists ''orders'', None)]\<rparr>,
      Returned (None, Some (Wrap ErrSubscriptionDoesNotExist ''orders''))) \<and>
   subscription (sim_client 0) (example_config False True) (new_registry (empty_broker []))
       ''orders'' ''orders'' =
     (\<lparr>activeSubscriptions = Map.empty, broker = empty_broker [],
       calls = [(SubscriptionExists ''orders'', None), (TopicExists ''orders'', None)]\<rparr>,
      Returned (None, Some (Wrap ErrTopicDoesNotExist ''orders''))) \<and>
   subscription (sim_client 0) (example_config False False) (new_registry (empty_broker []))
       ''orders'' ''orders'' =
     (\<lparr>activeSubscriptions =
         [''orders'' \<mapsto> Some \<lparr>sub_name = ''orders'', sub_ReceiveSettings = 7\<rparr>],
       broker = \<lparr>sim_subscriptions = [(''orders'', ''orders'')], sim_topics = [''orders''],
                 sim_faults = [], sim_closed = False\<rparr>,
       calls = [(SubscriptionExists ''orders'', None), (TopicExists ''orders'', None),
                (CreateTopic ''orders'', None),
                (CreateSubscription ''orders''
                   \<lparr>Topic = Some \<lparr>topic_name = ''orders''\<rparr>, Options = ()\<rparr>, None)]\<rparr>,
      Returned (Some \<lparr>sub_name = ''orders'', sub_ReceiveSettings = 7\<rparr>, None)) \<and>
   subscription (sim_client 0) (example_config False True)
       (new_registry \<lparr>sim_subscriptions = [], sim_topics = [''orders''], sim_faults = [], sim_closed = False\<rparr>)
       ''orders'' ''orders'' =
     (\<lparr>activeSubscriptions =
         [''orders'' \<mapsto> Some \<lparr>sub_name = ''orders'', sub_ReceiveSettings = 7\<rparr>],
       broker = \<lparr>sim_subscriptions = [(''orders'', ''orders'')], sim_topics = [''orders''],
                 sim_faults = [], sim_closed = False\<rparr>,
       calls = [(SubscriptionExists ''orders'', None), (TopicExists ''orders'', None),
                (CreateSubscription ''orders''
                   \<lparr>Topic = Some \<lparr>topic_name = ''orders''\<rparr>, Options = ()\<rparr>, None)]\<rparr>,
      Returned (Some \<lparr>sub_name = ''orders'', sub_ReceiveSettings = 7\<rparr>, None))"
  using
    subscription_missing_policy [where c = "sim_client 0" and cfg = "example_config True False"
      and r = "new_registry (empty_broker [])" and subscriptionName = "''orders''"
      and topicName = "''orders''" and ?b1.0 = "empty_broker []", THEN conjunct1]
    subscription_missing_policy [where c = "sim_client 0" and cfg = "example_config False True"
      and r = "new_registry (empty_broker [])" and subscriptionName = "''orders''"
      and topicName = "''orders''" and ?b1.0 = "empty_broker []" and ?b2.0 = "empty_broker []",
      THEN conjunct2, THEN conjunct1]
    subscription_missing_policy [where c = "sim_client 0" and cfg = "example_config False False"
      and r = "new_registry (empty_broker [])" and subscriptionName = "''orders''"
      and topicName = "''orders''" and ?b1.0 = "empty_broker []" and ?b2.0 = "empty_broker []"
      and ?b3.0 = "\<lparr>sim_subscriptions = [], sim_topics = [''orders''], sim_faults = [], sim_closed = False\<rparr>"
      and t' = "Some \<lparr>topic_name = ''orders''\<rparr>"
      and ?b4.0 = "\<lparr>sim_subscriptions = [(''orders'', ''orders'')], sim_topics = [''orders''],
                     sim_faults = [], sim_closed = False\<rparr>"
      and h = "\<lparr>sub_name = ''orders'', sub_ReceiveSettings = 0\<rparr>",
      THEN conjunct2, THEN conjunct2, THEN conjunct1]
    subscription_missing_policy [where c = "sim_client 0" and cfg = "example_config False True"
      and r = "new_registry \<lparr>sim_subscriptions = [], sim_topics = [''orders''], sim_faults = [], sim_closed = False\<rparr>"
      and subscriptionName = "''orders''" and topicName = "''orders''"
      and ?b1.0 = "\<lparr>sim_subscriptions = [], sim_topics = [''orders''], sim_faults = [], sim_closed = False\<rparr>"
      and ?b2.0 = "\<lparr>sim_subscriptions = [], sim_topics = [''orders''], sim_faults = [], sim_closed = False\<rparr>"
      and ?b4.0 = "\<lparr>sim_subscriptions = [(''orders'', ''orders'')], sim_topics = [''orders''],
                     sim_faults = [], sim_closed = False\<rparr>"
      and h = "\<lparr>sub_name = ''orders'', sub_ReceiveSettings = 0\<rparr>",
      THEN conjunct2, THEN conjunct2, THEN conjunct2]
  by (simp add: sim_defs)

subsection \<open>A failed creation\<close>

lemma create_subscription_nil_handle:
  "client_CreateSubscription c (broker r) subscriptionName ((SubscriptionConfig cfg)\<lparr>Topic := t\<rparr>)
     = (b, None, err) \<Longrightarrow>
   snd (create_subscription c cfg r subscriptionName t) = Panicked"
  by (simp add: create_subscription_def call_CreateSubscription_def)

text \<open>
  Claim C9. Line 257 assigns \<^verbatim>\<open>sub.ReceiveSettings\<close> before line 259 hands \<open>err\<close> to the
  caller, so the handle must not be nil there. It is nil when \<^verbatim>\<open>CreateSubscription\<close>
  fails: here the service rejects the creation (the fourth remote call), the client
  returns a nil handle with the error, and the resolve panics instead of returning the
  error.
\<close>

theorem subscription_panics_on_failed_creation:
  "subscription (sim_client 0) (example_config False False)
       (new_registry (empty_broker [None, None, None, Some (External ''rejected'')]))
       ''orders'' ''orders'' =
     (\<lparr>activeSubscriptions = Map.empty,
       broker = \<lparr>sim_subscriptions = [], sim_topics = [''orders''], sim_faults = [], sim_closed = False\<rparr>,
       calls = [(SubscriptionExists ''orders'', None), (TopicExists ''orders'', None),
                (CreateTopic ''orders'', None),
                (CreateSubscription ''orders''
                   \<lparr>Topic = Some \<lparr>topic_name = ''orders''\<rparr>, Options = ()\<rparr>,
                 Some (External ''rejected''))]\<rparr>,
      Panicked)"
  by (simp add: registry_defs sim_defs)

section \<open>The NATS Streaming publisher (nats/publisher.go)\<close>

text \<open>
  \<^verbatim>\<open>StreamingPublisher.Publish\<close>, lines 68 to 88. The marshaler of the configuration and
  the connection's \<^verbatim>\<open>Publish\<close> are the two parameters \<open>marshal\<close> and \<open>send\<close>, each
  returning Go's pair of a value and an error; \<open>'c\<close> is the state of the connection.
  The messages are pointers: line 71 reads \<^verbatim>\<open>msg.UUID\<close>, which panics on nil (\<open>None\<close>).
  Next to the connection and the result, the model returns the calls to the
  connection's \<^verbatim>\<open>Publish\<close> in the order they were made.
\<close>

fun Publish ::
  "(string \<Rightarrow> 'm \<Rightarrow> 'p \<times> error option) \<Rightarrow> ('c \<Rightarrow> string \<Rightarrow> 'p \<Rightarrow> 'c \<times> error option)
    \<Rightarrow> 'c \<Rightarrow> string \<Rightarrow> 'm option list \<Rightarrow> 'c \<times> (string \<times> 'p) list \<times> error option outcome" where
  "Publish marshal send conn topic [] = (conn, [], Returned None)"
| "Publish marshal send conn topic (None # messages) = (conn, [], Panicked)"
| "Publish marshal send conn topic (Some msg # messages) =
     (case marshal topic msg of
        (b, Some err) \<Rightarrow> (conn, [], Returned (Some err))
      | (b, None) \<Rightarrow>
          (case send conn topic b of
             (conn', Some err) \<Rightarrow>
               (conn', [(topic, b)], Returned (Some (Wrap err ''sending message failed'')))
           | (conn', None) \<Rightarrow>
               (case Publish marshal send conn' topic messages of
                  (conn'', sent, res) \<Rightarrow> (conn'', (topic, b) # sent, res))))"

text \<open>A marshaler and a connection for concrete runs: the connection keeps what it got.\<close>

definition example_marshal :: "string \<Rightarrow> string \<Rightarrow> string \<times> error option" where
  "example_marshal topic msg =
     (if msg = ''bad'' then ([], Some (External ''cannot marshal'')) else (msg, None))"

definition example_send ::
  "(string \<times> string) list \<Rightarrow> string \<Rightarrow> string \<Rightarrow> (string \<times> string) list \<times> error option" where
  "example_send conn topic b = (conn @ [(topic, b)], None)"

lemma Publish_append:
  "Publish marshal send conn topic (xs @ ys) =
     (case Publish marshal send conn topic xs of
        (conn', sent, Returned None) \<Rightarrow>
          (case Publish marshal send conn' topic ys of
             (conn'', sent', res) \<Rightarrow> (conn'', sent @ sent', res))
      | other \<Rightarrow> other)"
proof (induction xs arbitrary: conn)
  case Nil
  show ?case by (cases "Publish marshal send conn topic ys") simp
next
  case (Cons x xs)
  show ?case
  proof (cases x)
    case None
    then show ?thesis by simp
  next
    case (Some msg)
    obtain b me where m: "marshal topic msg = (b, me)" by (cases "marshal topic msg")
    show ?thesis
    proof (cases me)
      case (Some e)
      then show ?thesis using m \<open>x = Some msg\<close> by simp
    next
      case None
      obtain c1 se where s: "send conn topic b = (c1, se)" by (cases "send conn topic b")
      show ?thesis
      proof (cases se)
        case (Some e)
        then show ?thesis using m s None \<open>x = Some msg\<close> by simp
      next
        case none: None
        obtain c2 sent res where p: "Publish marshal send c1 topic xs = (c2, sent, res)"
          by (cases "Publish marshal send c1 topic xs")
        obtain c3 sent' res' where q: "Publish marshal send c2 topic ys = (c3, sent', res')"
          by (cases "Publish marshal send c2 topic ys")
        have ih: "Publish marshal send c1 topic (xs @ ys) =
            (case res of Returned None \<Rightarrow> (c3, sent @ sent', res') | _ \<Rightarrow> (c2, sent, res))"
          using Cons.IH [of c1] p q
          by (simp split: outcome.splits option.splits)
        show ?thesis
          using m s None none \<open>x = Some msg\<close> p q ih
          by (simp split: outcome.splits option.splits)
      qed
    qed
  qed
qed

lemma Publish_sent_in_order:
  "Publish marshal send conn topic (map Some pre) = (conn', sent, Returned None) \<Longrightarrow>
   sent = map (\<lambda>m. (topic, fst (marshal topic m))) pre"
proof (induction pre arbitrary: conn sent)
  case Nil
  then show ?case by simp
next
  case (Cons m pre)
  obtain b me where m: "marshal topic m = (b, me)" by (cases "marshal topic m")
  obtain c1 se where s: "send conn topic b = (c1, se)" by (cases "send conn topic b")
  obtain c2 sent2 res where p: "Publish marshal send c1 topic (map Some pre) = (c2, sent2, res)"
    by (cases "Publish marshal send c1 topic (map Some pre)")
  from Cons.prems m have me: "me = None" by (cases me) simp_all
  from Cons.prems m me s have se: "se = None" by (cases se) simp_all
  from Cons.prems m me s se p have "res = Returned None" "sent = (topic, b) # sent2" "c2 = conn'"
    by simp_all
  with Cons.IH [of c1 sent2] p m show ?case by simp
qed

text \<open>
  Claim C3. In a call \<^verbatim>\<open>Publish(topic, m1..mn)\<close> that gets as far as \<open>mi\<close> (the messages
  \<open>pre\<close> before it were all marshaled and accepted by the connection, so the call on
  \<open>pre\<close> alone returns nil) and in which marshaling \<open>mi\<close> fails with \<open>e\<close>: the call
  returns \<open>e\<close> itself, not wrapped; the connection has been given exactly the
  marshaled messages of \<open>pre\<close>, in input order, and nothing of \<open>mi\<close> or of the messages
  after it; and the connection is in the state the last of \<open>pre\<close> left it in.
\<close>

theorem Publish_marshal_failure:
  assumes "Publish marshal send conn topic (map Some pre) = (conn', sent, Returned None)"
    and "marshal topic mi = (b, Some e)"
  shows "Publish marshal send conn topic (map Some pre @ Some mi # rest) =
           (conn', map (\<lambda>m. (topic, fst (marshal topic m))) pre, Returned (Some e))"
  using assms Publish_sent_in_order [OF assms(1)]
  by (simp add: Publish_append)

theorem Publish_marshal_failure_witness:
  "Publish example_marshal example_send [] ''orders'' (map Some [''a'', ''b'']) =
     ([(''orders'', ''a''), (''orders'', ''b'')], [(''orders'', ''a''), (''orders'', ''b'')],
      Returned None) \<and>
   example_marshal ''orders'' ''bad'' = ([], Some (External ''cannot marshal'')) \<and>
   Publish example_marshal example_send [] ''orders''
       (map Some [''a'', ''b''] @ Some ''bad'' # [Some ''c'']) =
     ([(''orders'', ''a''), (''orders'', ''b'')], [(''orders'', ''a''), (''orders'', ''b'')],
      Returned (Some (External ''cannot marshal'')))"
proof -
  have pre: "Publish example_marshal example_send [] ''orders'' (map Some [''a'', ''b'']) =
     ([(''orders'', ''a''), (''orders'', ''b'')], [(''orders'', ''a''), (''orders'', ''b'')],
      Returned None)"
    by (simp add: example_marshal_def example_send_def)
  have bad: "example_marshal ''orders'' ''bad'' = ([], Some (External ''cannot marshal''))"
    by (simp add: example_marshal_def)
  have m: "map (\<lambda>m. (''orders'', fst (example_marshal ''orders'' m))) [''a'', ''b''] =
      [(''orders'', ''a''), (''orders'', ''b'')]"
    by (simp add: example_marshal_def)
  show ?thesis
    using Publish_marshal_failure [where marshal = example_marshal and send = example_send
        and topic = "''orders''" and mi = "''bad''" and pre = "[''a'', ''b'']"
        and rest = "[Some ''c'']", OF pre bad]
    by (simp only: m pre bad simp_thms)
qed

section \<open>The subscriber and its goroutines (googlecloud/subscriber.go)\<close>

subsection \<open>The callback given to \<^verbatim>\<open>sub.Receive\<close>, lines 167 to 195\<close>

text \<open>
  One call of the callback on a native message \<open>pubsubMsg\<close> is at one of three places:
  before the unmarshaling of line 168, at the first \<^verbatim>\<open>select\<close> (line 175) with the
  unmarshaled message, or at the second \<^verbatim>\<open>select\<close> (line 187) after the message went
  out on the output channel; or it has returned. A \<^verbatim>\<open>select\<close> blocks until one of its
  cases can proceed: the case that does is the move. The case on \<^verbatim>\<open>s.closing\<close> can
  proceed once that channel is closed; whether the consumer takes the message from the
  output channel, and whether it has acknowledged it, is up to the consumer. A step
  yields what the callback tells the broker about the native message and what it sends
  on the output channel.
\<close>

datatype ack = BrokerAck | BrokerNack

datatype ('n, 'm) callback =
    AtUnmarshal 'n
  | AtOffer 'n 'm
  | AtAwait 'n 'm
  | CallbackReturned

datatype move = Unmarshal | Closing | Send | Acked | Nacked

datatype ('n, 'm) effect = ToBroker 'n ack | ToOutput 'm

fun callback_step ::
  "('n \<Rightarrow> 'm \<times> error option) \<Rightarrow> bool \<Rightarrow> move \<Rightarrow> ('n, 'm) callback
    \<Rightarrow> (('n, 'm) callback \<times> ('n, 'm) effect list) option" where
  "callback_step unmarshal closing Unmarshal (AtUnmarshal pubsubMsg) =
     (case unmarshal pubsubMsg of
        (msg, Some err) \<Rightarrow> Some (CallbackReturned, [ToBroker pubsubMsg BrokerNack])
      | (msg, None) \<Rightarrow> Some (AtOffer pubsubMsg msg, []))"
| "callback_step unmarshal closing Closing (AtOffer pubsubMsg msg) =
     (if closing then Some (CallbackReturned, [ToBroker pubsubMsg BrokerNack]) else None)"
| "callback_step unmarshal closing Send (AtOffer pubsubMsg msg) =
     Some (AtAwait pubsubMsg msg, [ToOutput msg])"
| "callback_step unmarshal closing Closing (AtAwait pubsubMsg msg) =
     (if closing then Some (CallbackReturned, [ToBroker pubsubMsg BrokerNack]) else None)"
| "callback_step unmarshal closing Acked (AtAwait pubsubMsg msg) =
     Some (CallbackReturned, [ToBroker pubsubMsg BrokerAck])"
| "callback_step unmarshal closing Nacked (AtAwait pubsubMsg msg) =
     Some (CallbackReturned, [ToBroker pubsubMsg BrokerNack])"
| "callback_step unmarshal closing _ _ = None"

subsection \<open>The state of a subscriber\<close>

text \<open>
  Every successful \<^verbatim>\<open>Subscribe\<close> starts two goroutines (lines 122 to 128 and 130 to 138)
  around three things of its own: the cancellable context \<open>ctx\<close>, the channel
  \<^verbatim>\<open>receiveFinished\<close> and the output channel. A \<open>loop\<close> holds them: whether \<^verbatim>\<open>cancel\<close>
  was called, whether each channel is closed, the messages that went out on the
  output channel and the acknowledgments that went to the broker, in order, the calls
  of the callback that \<^verbatim>\<open>sub.Receive\<close> has made, and where each goroutine is.
\<close>

datatype receive_pc =
    NotStarted
  | InReceive
  | AfterReceive "error option"
  | ReceiveDone

datatype closer_pc = At131 | At133 | At135 | At136 | At137 | CloserDone

record ('rs, 'n, 'm) loop =
  loop_sub :: "'rs subscription_handle option"
  cancelled :: bool
  callbacks :: "('n, 'm) callback list"
  receiving :: receive_pc
  receive_result :: "error option"
  receiveFinished :: bool
  output_sent :: "'m list"
  output_closed :: bool
  acked :: "('n \<times> ack) list"
  closer :: closer_pc

definition new_loop :: "'rs subscription_handle option \<Rightarrow> ('rs, 'n, 'm) loop" where
  "new_loop s =
     \<lparr>loop_sub = s, cancelled = False, callbacks = [], receiving = NotStarted,
      receive_result = None, receiveFinished = False, output_sent = [], output_closed = False,
      acked = [], closer = At131\<rparr>"

text \<open>
  The \<^verbatim>\<open>Subscriber\<close> struct: the flag \<^verbatim>\<open>closed\<close>, the channel \<^verbatim>\<open>closing\<close> (nothing is ever
  sent on it, so all that matters is whether it is closed), the counter of the wait
  group, the registry, and whether the context given to \<^verbatim>\<open>NewSubscriber\<close> is done. Around
  it: the loops started so far, the topics of the calls of \<^verbatim>\<open>Subscribe\<close> that are past
  the test of line 98 and have not done the rest yet, where the running call of
  \<^verbatim>\<open>Close\<close> is (if one runs), the results of the calls of \<^verbatim>\<open>Close\<close> that have returned,
  and whether a goroutine has panicked, which ends the program.
\<close>

datatype close_pc = Idle | At148 | At149 | At150 | At152

record ('b, 'rs, 'o, 'n, 'm) subscriber =
  closed :: bool
  closing :: bool
  ctx_done :: bool
  wg :: nat
  reg :: "('b, 'rs, 'o) registry"
  loops :: "('rs, 'n, 'm) loop list"
  subscribing :: "string list"
  close_pc :: close_pc
  close_returned :: "error option list"
  crashed :: bool

definition NewSubscriber :: "'b \<Rightarrow> ('b, 'rs, 'o, 'n, 'm) subscriber" where
  "NewSubscriber b =
     \<lparr>closed = False, closing = False, ctx_done = False, wg = 0, reg = new_registry b,
      loops = [], subscribing = [], close_pc = Idle, close_returned = [], crashed = False\<rparr>"

subsection \<open>\<^verbatim>\<open>Subscribe\<close>, lines 97 to 141\<close>

text \<open>
  The test of line 98, and the rest (lines 102 to 140) for a call that got past it. The
  returned channel is named by the position of its loop. A resolve that panics leaves
  \<^verbatim>\<open>Subscribe\<close> by the panic, after the registry's deferred functions have run.
\<close>

definition Subscribe_rest ::
  "('b, 'rs, 'o) client \<Rightarrow> ('rs, 'o) subscriber_config \<Rightarrow> ('b, 'rs, 'o, 'n, 'm) subscriber
    \<Rightarrow> string \<Rightarrow> ('b, 'rs, 'o, 'n, 'm) subscriber \<times> (nat option \<times> error option) outcome" where
  "Subscribe_rest c cfg s topic =
     (let subscriptionName = SubscriptionName cfg topic in
      case subscription c cfg (reg s) subscriptionName topic of
        (r, Panicked) \<Rightarrow> (s\<lparr>reg := r\<rparr>, Panicked)
      | (r, Returned (sub, Some err)) \<Rightarrow> (s\<lparr>reg := r\<rparr>, Returned (None, Some err))
      | (r, Returned (sub, None)) \<Rightarrow>
          (s\<lparr>reg := r, wg := wg s + 1, loops := loops s @ [new_loop sub]\<rparr>,
           Returned (Some (length (loops s)), None)))"

definition Subscribe ::
  "('b, 'rs, 'o) client \<Rightarrow> ('rs, 'o) subscriber_config \<Rightarrow> ('b, 'rs, 'o, 'n, 'm) subscriber
    \<Rightarrow> string \<Rightarrow> ('b, 'rs, 'o, 'n, 'm) subscriber \<times> (nat option \<times> error option) outcome" where
  "Subscribe c cfg s topic =
     (if closed s then (s, Returned (None, Some ErrSubscriberClosed))
      else Subscribe_rest c cfg s topic)"

subsection \<open>\<^verbatim>\<open>Close\<close>, lines 143 to 159, step by step\<close>

text \<open>
  A call starts at line 144 and returns there when \<^verbatim>\<open>closed\<close> is set. Otherwise it sets
  the flag (148), closes \<^verbatim>\<open>closing\<close> (149; closing a closed channel panics), waits for
  the wait group's counter to be zero (150), closes the client and returns the client's
  error or nil (152 to 158).
\<close>

definition call_client_Close ::
  "('b, 'rs, 'o) client \<Rightarrow> ('b, 'rs, 'o) registry \<Rightarrow> ('b, 'rs, 'o) registry \<times> error option" where
  "call_client_Close c r =
     (case client_Close c (broker r) of (b, err) \<Rightarrow>
        (r\<lparr>broker := b, calls := calls r @ [(ClientClose, err)]\<rparr>, err))"

definition close_step ::
  "('b, 'rs, 'o) client \<Rightarrow> ('b, 'rs, 'o, 'n, 'm) subscriber
    \<Rightarrow> ('b, 'rs, 'o, 'n, 'm) subscriber option" where
  "close_step c s =
     (case close_pc s of
        Idle \<Rightarrow>
          if closed s then Some (s\<lparr>close_returned := close_returned s @ [None]\<rparr>)
          else Some (s\<lparr>close_pc := At148\<rparr>)
      | At148 \<Rightarrow> Some (s\<lparr>closed := True, close_pc := At149\<rparr>)
      | At149 \<Rightarrow>
          if closing s then Some (s\<lparr>crashed := True\<rparr>)
          else Some (s\<lparr>closing := True, close_pc := At150\<rparr>)
      | At150 \<Rightarrow> if wg s = 0 then Some (s\<lparr>close_pc := At152\<rparr>) else None
      | At152 \<Rightarrow>
          (case call_client_Close c (reg s) of (r, err) \<Rightarrow>
             Some (s\<lparr>reg := r, close_pc := Idle, close_returned := close_returned s @ [err]\<rparr>)))"

subsection \<open>The two goroutines of a loop\<close>

text \<open>
  The first goroutine runs \<^verbatim>\<open>receive\<close> (lines 161 to 203) and then closes
  \<^verbatim>\<open>receiveFinished\<close> (line 127). \<^verbatim>\<open>sub.Receive\<close> belongs to the client library; what the
  model takes from its documentation: it calls the callback on the messages that
  arrive, possibly on several at once; it returns nil once its context is done, or an
  error of the service, in both cases after all outstanding calls of the callback have
  returned; and on a nil handle it panics. Sending on a closed channel panics.
\<close>

datatype 'n action =
    Start
  | Arrive 'n
  | Callback nat move
  | ReceiveReturns "error option"
  | ReceiveExits
  | Closer

definition apply_effects ::
  "('n, 'm) effect list \<Rightarrow> ('rs, 'n, 'm) loop \<Rightarrow> ('rs, 'n, 'm) loop" where
  "apply_effects effs l =
     l\<lparr>output_sent := output_sent l @ concat (map (\<lambda>e. case e of ToOutput m \<Rightarrow> [m] | ToBroker n a \<Rightarrow> []) effs),
       acked := acked l @ concat (map (\<lambda>e. case e of ToOutput m \<Rightarrow> [] | ToBroker n a \<Rightarrow> [(n, a)]) effs)\<rparr>"

definition sends :: "('n, 'm) effect list \<Rightarrow> bool" where
  "sends effs = (\<exists>e \<in> set effs. case e of ToOutput m \<Rightarrow> True | ToBroker n a \<Rightarrow> False)"

text \<open>
  A step of the first goroutine or of a callback: the new loop, or a panic (\<open>None\<close>
  inside), or no step at all (\<open>None\<close> outside) when the goroutine is blocked or
  somewhere else.
\<close>

definition receive_step ::
  "('n \<Rightarrow> 'm \<times> error option) \<Rightarrow> bool \<Rightarrow> bool \<Rightarrow> bool \<Rightarrow> 'n action \<Rightarrow> ('rs, 'n, 'm) loop
    \<Rightarrow> ('rs, 'n, 'm) loop option option" where
  "receive_step unmarshal is_closed is_closing is_done a l =
     (case a of
        Start \<Rightarrow>
          if receiving l = NotStarted
          then (case loop_sub l of None \<Rightarrow> Some None | Some h \<Rightarrow> Some (Some (l\<lparr>receiving := InReceive\<rparr>)))
          else None
      | Arrive pubsubMsg \<Rightarrow>
          if receiving l = InReceive
          then Some (Some (l\<lparr>callbacks := callbacks l @ [AtUnmarshal pubsubMsg]\<rparr>))
          else None
      | Callback j mv \<Rightarrow>
          if j < length (callbacks l)
          then (case callback_step unmarshal is_closing mv (callbacks l ! j) of
                  None \<Rightarrow> None
                | Some (cb, effs) \<Rightarrow>
                    if sends effs \<and> output_closed l then Some None
                    else Some (Some (apply_effects effs (l\<lparr>callbacks := (callbacks l)[j := cb]\<rparr>))))
          else None
      | ReceiveReturns err \<Rightarrow>
          if receiving l = InReceive \<and> list_all (\<lambda>cb. cb = CallbackReturned) (callbacks l) \<and>
             (err = None \<longrightarrow> cancelled l \<or> is_done)
          then Some (Some (l\<lparr>receiving := AfterReceive err\<rparr>))
          else None
      | ReceiveExits \<Rightarrow>
          (case receiving l of
             AfterReceive err \<Rightarrow>
               Some (Some (l\<lparr>receive_result := (if err \<noteq> None \<and> \<not> is_closed then err else None),
                              receiveFinished := True, receiving := ReceiveDone\<rparr>))
           | _ \<Rightarrow> None)
      | Closer \<Rightarrow> None)"

text \<open>
  The second goroutine, lines 130 to 138: it waits for \<^verbatim>\<open>closing\<close>, cancels the context,
  waits for \<^verbatim>\<open>receiveFinished\<close>, closes the output channel (closing a closed channel
  panics) and tells the wait group it is done (a counter below zero panics). The
  result is the new loop and the new counter.
\<close>

definition closer_step ::
  "bool \<Rightarrow> nat \<Rightarrow> ('rs, 'n, 'm) loop \<Rightarrow> (('rs, 'n, 'm) loop \<times> nat) option option" where
  "closer_step is_closing n l =
     (case closer l of
        At131 \<Rightarrow> if is_closing then Some (Some (l\<lparr>closer := At133\<rparr>, n)) else None
      | At133 \<Rightarrow> Some (Some (l\<lparr>cancelled := True, closer := At135\<rparr>, n))
      | At135 \<Rightarrow> if receiveFinished l then Some (Some (l\<lparr>closer := At136\<rparr>, n)) else None
      | At136 \<Rightarrow>
          if output_closed l then Some None
          else Some (Some (l\<lparr>output_closed := True, closer := At137\<rparr>, n))
      | At137 \<Rightarrow> if n = 0 then Some None else Some (Some (l\<lparr>closer := CloserDone\<rparr>, n - 1))
      | CloserDone \<Rightarrow> None)"

subsection \<open>Runs of the subscriber\<close>

text \<open>
  One step of the whole: a step of a call of \<^verbatim>\<open>Subscribe\<close>, the next step of \<^verbatim>\<open>Close\<close>,
  the cancellation of the subscriber's context, or a step of a goroutine of loop \<open>i\<close>.
  All of them interleave freely. A call of \<^verbatim>\<open>Subscribe\<close> takes two steps, the test of
  \<^verbatim>\<open>closed\<close> on line 98 and the rest; the rest is one step, since all it shares with
  the other steps is the registry and the wait group's counter, which it changes in
  the one \<^verbatim>\<open>Add\<close> of line 121. \<^verbatim>\<open>Close\<close> is called by one caller at a time. After a
  panic nothing runs.
\<close>

datatype 'n label =
    EnterSubscribe string
  | RunSubscribe nat
  | DoClose
  | CtxDone
  | Loop nat "'n action"

definition loop_step ::
  "('n \<Rightarrow> 'm \<times> error option) \<Rightarrow> nat \<Rightarrow> 'n action \<Rightarrow> ('b, 'rs, 'o, 'n, 'm) subscriber
    \<Rightarrow> ('b, 'rs, 'o, 'n, 'm) subscriber option" where
  "loop_step unmarshal i a s =
     (if i < length (loops s)
      then (case a of
              Closer \<Rightarrow>
                (case closer_step (closing s) (wg s) (loops s ! i) of
                   None \<Rightarrow> None
                 | Some None \<Rightarrow> Some (s\<lparr>crashed := True\<rparr>)
                 | Some (Some (l, n)) \<Rightarrow> Some (s\<lparr>wg := n, loops := (loops s)[i := l]\<rparr>))
            | _ \<Rightarrow>
                (case receive_step unmarshal (closed s) (closing s) (ctx_done s) a (loops s ! i) of
                   None \<Rightarrow> None
                 | Some None \<Rightarrow> Some (s\<lparr>crashed := True\<rparr>)
                 | Some (Some l) \<Rightarrow> Some (s\<lparr>loops := (loops s)[i := l]\<rparr>)))
      else None)"

definition fire ::
  "('n \<Rightarrow> 'm \<times> error option) \<Rightarrow> ('b, 'rs, 'o) client \<Rightarrow> ('rs, 'o) subscriber_config
    \<Rightarrow> 'n label \<Rightarrow> ('b, 'rs, 'o, 'n, 'm) subscriber \<Rightarrow> ('b, 'rs, 'o, 'n, 'm) subscriber option" where
  "fire unmarshal c cfg lbl s =
     (if crashed s then None
      else (case lbl of
              EnterSubscribe topic \<Rightarrow>
                Some (if closed s then s else s\<lparr>subscribing := subscribing s @ [topic]\<rparr>)
            | RunSubscribe j \<Rightarrow>
                if j < length (subscribing s)
                then Some ((fst (Subscribe_rest c cfg s (subscribing s ! j)))
                             \<lparr>subscribing := take j (subscribing s) @ drop (Suc j) (subscribing s)\<rparr>)
                else None
            | DoClose \<Rightarrow> close_step c s
            | CtxDone \<Rightarrow> Some (s\<lparr>ctx_done := True\<rparr>)
            | Loop i a \<Rightarrow> loop_step unmarshal i a s))"

fun exec ::
  "('n \<Rightarrow> 'm \<times> error option) \<Rightarrow> ('b, 'rs, 'o) client \<Rightarrow> ('rs, 'o) subscriber_config
    \<Rightarrow> 'n label list \<Rightarrow> ('b, 'rs, 'o, 'n, 'm) subscriber \<Rightarrow> ('b, 'rs, 'o, 'n, 'm) subscriber option" where
  "exec unmarshal c cfg [] s = Some s"
| "exec unmarshal c cfg (lbl # lbls) s =
     (case fire unmarshal c cfg lbl s of
        None \<Rightarrow> None
      | Some s' \<Rightarrow> exec unmarshal c cfg lbls s')"

subsection \<open>A whole call of the callback\<close>

text \<open>
  What one call of the callback does from start to end, given the moves offered to it
  in order, each with the state of \<^verbatim>\<open>closing\<close> at that moment: a move that cannot
  be taken is passed over. The result is where the callback stands and all it has told
  the broker and sent on the output channel. \<open>decided inputs a\<close> says that the moves
  offered include one that leads to the acknowledgment \<open>a\<close>.
\<close>

fun callback_run ::
  "('n \<Rightarrow> 'm \<times> error option) \<Rightarrow> (bool \<times> move) list \<Rightarrow> ('n, 'm) callback
    \<Rightarrow> ('n, 'm) callback \<times> ('n, 'm) effect list" where
  "callback_run unmarshal [] cb = (cb, [])"
| "callback_run unmarshal ((is_closing, mv) # rest) cb =
     (case callback_step unmarshal is_closing mv cb of
        None \<Rightarrow> callback_run unmarshal rest cb
      | Some (cb', effs) \<Rightarrow>
          (case callback_run unmarshal rest cb' of (cb'', effs') \<Rightarrow> (cb'', effs @ effs')))"

definition decided :: "(bool \<times> move) list \<Rightarrow> ack \<Rightarrow> bool" where
  "decided inputs a \<longleftrightarrow>
     (a = BrokerAck \<and> (\<exists>cl. (cl, Acked) \<in> set inputs)) \<or>
     (a = BrokerNack \<and> ((\<exists>cl. (cl, Nacked) \<in> set inputs) \<or> (True, Closing) \<in> set inputs))"

subsection \<open>A concrete run\<close>

text \<open>
  An unmarshaler that fails on \<open>garbled\<close> and copies everything else, and a run
  against the simulated service: one subscription to \<open>orders\<close>, a message that is
  delivered and one that cannot be unmarshaled, and then \<^verbatim>\<open>Close\<close> with the delivered
  message neither acked nor nacked. In \<open>example_late\<close> a call of \<^verbatim>\<open>Subscribe\<close> tests
  \<^verbatim>\<open>closed\<close> before \<^verbatim>\<open>Close\<close> sets it and does the rest while \<^verbatim>\<open>Close\<close> is between
  its wait (line 150) and the closing of the client (line 152); a message arrives and
  is unmarshaled before \<^verbatim>\<open>Close\<close> goes on.
\<close>

definition example_unmarshal :: "string \<Rightarrow> string \<times> error option" where
  "example_unmarshal pubsubMsg =
     (if pubsubMsg = ''garbled'' then ([], Some (External ''cannot unmarshal''))
      else (pubsubMsg, None))"

definition example_start :: "string label list" where
  "example_start =
     [EnterSubscribe ''orders'', RunSubscribe 0, Loop 0 Start,
      Loop 0 (Arrive ''m1''), Loop 0 (Callback 0 Unmarshal), Loop 0 (Callback 0 Send),
      Loop 0 (Arrive ''garbled'')]"

definition example_shutdown :: "string label list" where
  "example_shutdown =
     [Loop 0 (Callback 1 Unmarshal),
      DoClose, DoClose, DoClose,
      Loop 0 Closer, Loop 0 Closer,
      Loop 0 (Callback 0 Closing), Loop 0 (ReceiveReturns None), Loop 0 ReceiveExits,
      Loop 0 Closer, Loop 0 Closer, Loop 0 Closer,
      DoClose, DoClose]"

definition example_registry ::
  "(sim_broker, nat, unit) registry" where
  "example_registry =
     \<lparr>activeSubscriptions =
        [''orders'' \<mapsto> Some \<lparr>sub_name = ''orders'', sub_ReceiveSettings = 7\<rparr>],
      broker = \<lparr>sim_subscriptions = [(''orders'', ''orders'')], sim_topics = [''orders''],
                sim_faults = [], sim_closed = False\<rparr>,
      calls = [(SubscriptionExists ''orders'', None), (TopicExists ''orders'', None),
               (CreateTopic ''orders'', None),
               (CreateSubscription ''orders''
                  \<lparr>Topic = Some \<lparr>topic_name = ''orders''\<rparr>, Options = ()\<rparr>, None)]\<rparr>"

definition example_running :: "(sim_broker, nat, unit, string, string) subscriber" where
  "example_running =
     \<lparr>closed = False, closing = False, ctx_done = False, wg = 1, reg = example_registry,
      loops =
        [\<lparr>loop_sub = Some \<lparr>sub_name = ''orders'', sub_ReceiveSettings = 7\<rparr>,
          cancelled = False, callbacks = [AtAwait ''m1'' ''m1'', AtUnmarshal ''garbled''],
          receiving = InReceive, receive_result = None, receiveFinished = False,
          output_sent = [''m1''], output_closed = False, acked = [], closer = At131\<rparr>],
      subscribing = [], close_pc = Idle, close_returned = [], crashed = False\<rparr>"

definition example_closed :: "(sim_broker, nat, unit, string, string) subscriber" where
  "example_closed =
     \<lparr>closed = True, closing = True, ctx_done = False, wg = 0,
      reg = example_registry
        \<lparr>broker := (broker example_registry)\<lparr>sim_closed := True\<rparr>,
         calls := calls example_registry @ [(ClientClose, None)]\<rparr>,
      loops =
        [\<lparr>loop_sub = Some \<lparr>sub_name = ''orders'', sub_ReceiveSettings = 7\<rparr>,
          cancelled = True, callbacks = [CallbackReturned, CallbackReturned],
          receiving = ReceiveDone, receive_result = None, receiveFinished = True,
          output_sent = [''m1''], output_closed = True,
          acked = [(''garbled'', BrokerNack), (''m1'', BrokerNack)], closer = CloserDone\<rparr>],
      subscribing = [], close_pc = Idle, close_returned = [None], crashed = False\<rparr>"

definition example_late :: "string label list" where
  "example_late =
     [EnterSubscribe ''orders'', DoClose, DoClose, DoClose, DoClose,
      RunSubscribe 0, Loop 0 Start, Loop 0 (Arrive ''m1''), Loop 0 (Callback 0 Unmarshal)]"

definition example_overtaken :: "(sim_broker, nat, unit, string, string) subscriber" where
  "example_overtaken =
     \<lparr>closed = True, closing = True, ctx_done = False, wg = 1, reg = example_registry,
      loops =
        [\<lparr>loop_sub = Some \<lparr>sub_name = ''orders'', sub_ReceiveSettings = 7\<rparr>,
          cancelled = False, callbacks = [AtOffer ''m1'' ''m1''],
          receiving = InReceive, receive_result = None, receiveFinished = False,
          output_sent = [], output_closed = False, acked = [], closer = At131\<rparr>],
      subscribing = [], close_pc = At152, close_returned = [], crashed = False\<rparr>"

lemmas subscriber_defs =
  fire_def loop_step_def receive_step_def closer_step_def close_step_def Subscribe_def
  Subscribe_rest_def
  NewSubscriber_def new_loop_def apply_effects_def sends_def call_client_Close_def Let_def

lemma example_start_runs:
  "exec example_unmarshal (sim_client 0) (example_config False False) example_start
     (NewSubscriber (empty_broker [])) = Some example_running"
  by (simp add: example_start_def example_running_def example_registry_def example_unmarshal_def
      subscriber_defs registry_defs sim_defs)

lemma example_shutdown_runs:
  "exec example_unmarshal (sim_client 0) (example_config False False) example_shutdown
     example_running = Some example_closed"
  by (simp add: example_shutdown_def example_running_def example_closed_def
      example_registry_def example_unmarshal_def subscriber_defs registry_defs sim_defs)

lemma exec_append:
  "exec unmarshal c cfg (xs @ ys) s =
     (case exec unmarshal c cfg xs s of None \<Rightarrow> None | Some s' \<Rightarrow> exec unmarshal c cfg ys s')"
  by (induction xs arbitrary: s) (auto split: option.splits)

lemma example_runs:
  "exec example_unmarshal (sim_client 0) (example_config False False)
     (example_start @ example_shutdown) (NewSubscriber (empty_broker [])) = Some example_closed"
  by (simp add: exec_append example_start_runs example_shutdown_runs)

section \<open>The callback: unmarshal failures and acknowledgments\<close>

lemma run_returned [simp]:
  "callback_run unmarshal inputs CallbackReturned = (CallbackReturned, [])"
  by (induction inputs) auto

lemma decided_Cons: "decided inputs a \<Longrightarrow> decided (x # inputs) a"
  by (auto simp: decided_def)

lemma run_await:
  "callback_run unmarshal inputs (AtAwait n m) = (cb, effs) \<Longrightarrow>
   (cb = AtAwait n m \<and> effs = []) \<or>
   (cb = CallbackReturned \<and> (\<exists>a. effs = [ToBroker n a] \<and> decided inputs a))"
proof (induction inputs)
  case Nil
  then show ?case by simp
next
  case (Cons x inputs)
  obtain cl mv where x: "x = (cl, mv)" by (cases x)
  show ?case
  proof (cases "callback_step unmarshal cl mv (AtAwait n m)")
    case None
    with Cons x show ?thesis by (auto intro: decided_Cons)
  next
    case (Some p)
    with x have "p = (CallbackReturned, [ToBroker n (if mv = Acked then BrokerAck else BrokerNack)])"
      and "decided (x # inputs) (if mv = Acked then BrokerAck else BrokerNack)"
      by (cases mv; auto simp: decided_def split: if_splits)+
    with Cons.prems x Some show ?thesis by auto
  qed
qed

lemma run_offer:
  "callback_run unmarshal inputs (AtOffer n m) = (cb, effs) \<Longrightarrow>
   (cb = AtOffer n m \<and> effs = []) \<or>
   (cb = CallbackReturned \<and> effs = [ToBroker n BrokerNack] \<and> (True, Closing) \<in> set inputs) \<or>
   (cb = AtAwait n m \<and> effs = [ToOutput m]) \<or>
   (cb = CallbackReturned \<and> (\<exists>a. effs = [ToOutput m, ToBroker n a] \<and> decided inputs a))"
proof (induction inputs)
  case Nil
  then show ?case by simp
next
  case (Cons x inputs)
  obtain cl mv where x: "x = (cl, mv)" by (cases x)
  show ?case
  proof (cases "callback_step unmarshal cl mv (AtOffer n m)")
    case None
    with Cons x show ?thesis by (auto intro: decided_Cons)
  next
    case (Some p)
    then consider "mv = Closing" "cl" "p = (CallbackReturned, [ToBroker n BrokerNack])"
      | "mv = Send" "p = (AtAwait n m, [ToOutput m])"
      by (cases mv; auto split: if_splits)
    then show ?thesis
    proof cases
      case 1
      with Cons.prems x Some show ?thesis by auto
    next
      case 2
      obtain cb' effs' where r: "callback_run unmarshal inputs (AtAwait n m) = (cb', effs')"
        by (cases "callback_run unmarshal inputs (AtAwait n m)")
      from run_await [OF r] Cons.prems x Some 2 r show ?thesis
        by (auto intro: decided_Cons)
    qed
  qed
qed

lemma run_unmarshal:
  "callback_run unmarshal inputs (AtUnmarshal n) = (cb, effs) \<Longrightarrow>
   (cb = AtUnmarshal n \<and> effs = []) \<or>
   (snd (unmarshal n) \<noteq> None \<and> cb = CallbackReturned \<and> effs = [ToBroker n BrokerNack]) \<or>
   (snd (unmarshal n) = None \<and>
    (\<exists>rest. callback_run unmarshal rest (AtOffer n (fst (unmarshal n))) = (cb, effs) \<and>
       set rest \<subseteq> set inputs))"
proof (induction inputs)
  case Nil
  then show ?case by simp
next
  case (Cons x inputs)
  obtain cl mv where x: "x = (cl, mv)" by (cases x)
  show ?case
  proof (cases "mv = Unmarshal")
    case False
    then have "callback_step unmarshal cl mv (AtUnmarshal n) = None" by (cases mv) simp_all
    with Cons x show ?thesis by (auto; blast)
  next
    case True
    obtain m e where u: "unmarshal n = (m, e)" by (cases "unmarshal n")
    show ?thesis
    proof (cases e)
      case None
      with Cons.prems x True u show ?thesis
        by (auto split: prod.splits intro!: exI [of _ inputs])
    next
      case (Some err)
      with Cons.prems x True u show ?thesis by auto
    qed
  qed
qed

lemma run_unmarshal_fails:
  assumes "unmarshal pubsubMsg = (msg, Some err)"
  shows "callback_run unmarshal inputs (AtUnmarshal pubsubMsg) =
     (if \<exists>cl. (cl, Unmarshal) \<in> set inputs
      then (CallbackReturned, [ToBroker pubsubMsg BrokerNack])
      else (AtUnmarshal pubsubMsg, []))"
proof (induction inputs)
  case Nil
  show ?case by simp
next
  case (Cons x inputs)
  obtain cl mv where x: "x = (cl, mv)" by (cases x)
  show ?case
  proof (cases "mv = Unmarshal")
    case True
    then show ?thesis using x assms by auto
  next
    case False
    then have "callback_step unmarshal cl mv (AtUnmarshal pubsubMsg) = None"
      by (cases mv) simp_all
    then show ?thesis using x False Cons.IH by auto
  qed
qed

text \<open>
  Claim C4. When unmarshaling a native message fails, the callback negatively
  acknowledges that message to the broker and returns: whatever moves it is offered,
  its whole effect is that one \<^verbatim>\<open>Nack\<close>, and nothing goes out on the output channel.
  In the subscriber, the step changes the acknowledgments and that callback only: the
  messages sent on the output channel are the same, \<^verbatim>\<open>sub.Receive\<close> is where it was,
  and when it was running it takes the next native message.
\<close>

theorem unmarshal_failure_is_nacked:
  fixes s :: "('b, 'rs, 'o, 'n, 'm) subscriber" and i j :: nat and pubsubMsg :: 'n
  assumes "unmarshal pubsubMsg = (msg, Some err)"
  defines "l \<equiv> loops s ! i"
  defines "l' \<equiv> l\<lparr>callbacks := (callbacks l)[j := CallbackReturned],
                    acked := acked l @ [(pubsubMsg, BrokerNack)]\<rparr>"
  shows "callback_run unmarshal inputs (AtUnmarshal pubsubMsg) =
           (if \<exists>cl. (cl, Unmarshal) \<in> set inputs
            then (CallbackReturned, [ToBroker pubsubMsg BrokerNack])
            else (AtUnmarshal pubsubMsg, [])) \<and>
         (\<not> crashed s \<and> i < length (loops s) \<and> j < length (callbacks l) \<and>
          callbacks l ! j = AtUnmarshal pubsubMsg \<longrightarrow>
            fire unmarshal c cfg (Loop i (Callback j Unmarshal)) s =
              Some (s\<lparr>loops := (loops s)[i := l']\<rparr>) \<and>
            output_sent l' = output_sent l \<and> receiving l' = receiving l \<and>
            (receiving l = InReceive \<longrightarrow>
               fire unmarshal c cfg (Loop i (Arrive next)) (s\<lparr>loops := (loops s)[i := l']\<rparr>) =
                 Some (s\<lparr>loops :=
                   (loops s)[i := l'\<lparr>callbacks := callbacks l' @ [AtUnmarshal next]\<rparr>]\<rparr>)))"
proof -
  have "callback_run unmarshal inputs (AtUnmarshal pubsubMsg) =
           (if \<exists>cl. (cl, Unmarshal) \<in> set inputs
            then (CallbackReturned, [ToBroker pubsubMsg BrokerNack])
            else (AtUnmarshal pubsubMsg, []))"
    using assms(1) by (rule run_unmarshal_fails)
  moreover have "\<not> crashed s \<and> i < length (loops s) \<and> j < length (callbacks l) \<and>
          callbacks l ! j = AtUnmarshal pubsubMsg \<longrightarrow>
            fire unmarshal c cfg (Loop i (Callback j Unmarshal)) s =
              Some (s\<lparr>loops := (loops s)[i := l']\<rparr>) \<and>
            output_sent l' = output_sent l \<and> receiving l' = receiving l \<and>
            (receiving l = InReceive \<longrightarrow>
               fire unmarshal c cfg (Loop i (Arrive next)) (s\<lparr>loops := (loops s)[i := l']\<rparr>) =
                 Some (s\<lparr>loops :=
                   (loops s)[i := l'\<lparr>callbacks := callbacks l' @ [AtUnmarshal next]\<rparr>]\<rparr>))"
    using assms(1)
    by (simp add: fire_def loop_step_def receive_step_def apply_effects_def sends_def l_def l'_def)
  ultimately show ?thesis by (rule conjI)
qed

theorem unmarshal_failure_is_nacked_witness:
  "example_unmarshal ''garbled'' = ([], Some (External ''cannot unmarshal'')) \<and>
   callback_run example_unmarshal [(False, Unmarshal)] (AtUnmarshal ''garbled'') =
     (CallbackReturned, [ToBroker ''garbled'' BrokerNack]) \<and>
   \<not> crashed example_running \<and> 0 < length (loops example_running) \<and>
   1 < length (callbacks (loops example_running ! 0)) \<and>
   callbacks (loops example_running ! 0) ! 1 = AtUnmarshal ''garbled'' \<and>
   receiving (loops example_running ! 0) = InReceive \<and>
   fire example_unmarshal (sim_client 0) (example_config False False)
       (Loop 0 (Callback 1 Unmarshal)) example_running =
     Some (example_running\<lparr>loops :=
       [\<lparr>loop_sub = Some \<lparr>sub_name = ''orders'', sub_ReceiveSettings = 7\<rparr>,
         cancelled = False, callbacks = [AtAwait ''m1'' ''m1'', CallbackReturned],
         receiving = InReceive, receive_result = None, receiveFinished = False,
         output_sent = [''m1''], output_closed = False, acked = [(''garbled'', BrokerNack)],
         closer = At131\<rparr>]\<rparr>) \<and>
   fire example_unmarshal (sim_client 0) (example_config False False) (Loop 0 (Arrive ''m2''))
       (example_running\<lparr>loops :=
         [\<lparr>loop_sub = Some \<lparr>sub_name = ''orders'', sub_ReceiveSettings = 7\<rparr>,
           cancelled = False, callbacks = [AtAwait ''m1'' ''m1'', CallbackReturned],
           receiving = InReceive, receive_result = None, receiveFinished = False,
           output_sent = [''m1''], output_closed = False, acked = [(''garbled'', BrokerNack)],
           closer = At131\<rparr>]\<rparr>) =
     Some (example_running\<lparr>loops :=
       [\<lparr>loop_sub = Some \<lparr>sub_name = ''orders'', sub_ReceiveSettings = 7\<rparr>,
         cancelled = False,
         callbacks = [AtAwait ''m1'' ''m1'', CallbackReturned, AtUnmarshal ''m2''],
         receiving = InReceive, receive_result = None, receiveFinished = False,
         output_sent = [''m1''], output_closed = False, acked = [(''garbled'', BrokerNack)],
         closer = At131\<rparr>]\<rparr>)"
proof -
  have u: "example_unmarshal ''garbled'' = ([], Some (External ''cannot unmarshal''))"
    by (simp add: example_unmarshal_def)
  note t = unmarshal_failure_is_nacked [where unmarshal = example_unmarshal
      and pubsubMsg = "''garbled''" and s = example_running and i = 0 and j = 1
      and inputs = "[(False, Unmarshal)]" and c = "sim_client 0"
      and cfg = "example_config False False" and ?next = "''m2''", OF u]
  have h: "\<not> crashed example_running \<and> 0 < length (loops example_running) \<and>
      1 < length (callbacks (loops example_running ! 0)) \<and>
      callbacks (loops example_running ! 0) ! 1 = AtUnmarshal ''garbled''"
    and r: "receiving (loops example_running ! 0) = InReceive"
    by (simp_all add: example_running_def)
  from t [THEN conjunct2, rule_format, OF h] r
  have f: "fire example_unmarshal (sim_client 0) (example_config False False)
       (Loop 0 (Callback 1 Unmarshal)) example_running =
     Some (example_running\<lparr>loops :=
       [\<lparr>loop_sub = Some \<lparr>sub_name = ''orders'', sub_ReceiveSettings = 7\<rparr>,
         cancelled = False, callbacks = [AtAwait ''m1'' ''m1'', CallbackReturned],
         receiving = InReceive, receive_result = None, receiveFinished = False,
         output_sent = [''m1''], output_closed = False, acked = [(''garbled'', BrokerNack)],
         closer = At131\<rparr>]\<rparr>)"
    and a: "fire example_unmarshal (sim_client 0) (example_config False False) (Loop 0 (Arrive ''m2''))
       (example_running\<lparr>loops :=
         [\<lparr>loop_sub = Some \<lparr>sub_name = ''orders'', sub_ReceiveSettings = 7\<rparr>,
           cancelled = False, callbacks = [AtAwait ''m1'' ''m1'', CallbackReturned],
           receiving = InReceive, receive_result = None, receiveFinished = False,
           output_sent = [''m1''], output_closed = False, acked = [(''garbled'', BrokerNack)],
           closer = At131\<rparr>]\<rparr>) =
     Some (example_running\<lparr>loops :=
       [\<lparr>loop_sub = Some \<lparr>sub_name = ''orders'', sub_ReceiveSettings = 7\<rparr>,
         cancelled = False,
         callbacks = [AtAwait ''m1'' ''m1'', CallbackReturned, AtUnmarshal ''m2''],
         receiving = InReceive, receive_result = None, receiveFinished = False,
         output_sent = [''m1''], output_closed = False, acked = [(''garbled'', BrokerNack)],
         closer = At131\<rparr>]\<rparr>)"
    by (simp_all add: example_running_def)
  have e: "\<exists>cl. (cl, Unmarshal) \<in> set [(False, Unmarshal)]"
    by (rule exI [of _ False]) simp
  from t [THEN conjunct1]
  have c: "callback_run example_unmarshal [(False, Unmarshal)] (AtUnmarshal ''garbled'') =
     (CallbackReturned, [ToBroker ''garbled'' BrokerNack])"
    by (simp only: e if_True)
  show ?thesis using u c h r f a by simp
qed

text \<open>
  Claim C5. A delivered message is at the second \<^verbatim>\<open>select\<close>. There the ack signal
  leads to a positive acknowledgment to the broker, the nack signal to a negative one
  and the closing signal (once \<^verbatim>\<open>closing\<close> is closed) to a negative one; each of the
  three ends the callback, and no other move is possible. So in every call of the
  callback that sent a message on the output channel, the broker has got nothing yet
  while the callback waits, and exactly one acknowledgment for that native message
  once it has returned, of the kind one of the offered moves decides.
\<close>

theorem delivered_message_acknowledged_once:
  "callback_step unmarshal cl Acked (AtAwait pubsubMsg msg) =
      Some (CallbackReturned, [ToBroker pubsubMsg BrokerAck]) \<and>
   callback_step unmarshal cl Nacked (AtAwait pubsubMsg msg) =
      Some (CallbackReturned, [ToBroker pubsubMsg BrokerNack]) \<and>
   callback_step unmarshal cl Closing (AtAwait pubsubMsg msg) =
      (if cl then Some (CallbackReturned, [ToBroker pubsubMsg BrokerNack]) else None) \<and>
   callback_step unmarshal cl Send (AtAwait pubsubMsg msg) = None \<and>
   callback_step unmarshal cl Unmarshal (AtAwait pubsubMsg msg) = None \<and>
   (callback_run unmarshal inputs (AtUnmarshal pubsubMsg) = (cb, effs) \<and> ToOutput msg \<in> set effs \<longrightarrow>
      (cb = AtAwait pubsubMsg msg \<and> effs = [ToOutput msg]) \<or>
      (cb = CallbackReturned \<and>
       (\<exists>a. effs = [ToOutput msg, ToBroker pubsubMsg a] \<and> decided inputs a)))"
proof -
  have "(cb = AtAwait pubsubMsg msg \<and> effs = [ToOutput msg]) \<or>
      (cb = CallbackReturned \<and>
       (\<exists>a. effs = [ToOutput msg, ToBroker pubsubMsg a] \<and> decided inputs a))"
    if r: "callback_run unmarshal inputs (AtUnmarshal pubsubMsg) = (cb, effs)"
      and o: "ToOutput msg \<in> set effs"
  proof -
    from run_unmarshal [OF r] o obtain rest where
      rest: "callback_run unmarshal rest (AtOffer pubsubMsg (fst (unmarshal pubsubMsg))) = (cb, effs)"
        "set rest \<subseteq> set inputs"
      by auto
    have mono: "decided rest a \<Longrightarrow> decided inputs a" for a
      using rest(2) by (auto simp: decided_def)
    from run_offer [OF rest(1)] o show ?thesis
      by (auto dest: mono)
  qed
  then show ?thesis by simp
qed

theorem delivered_message_acknowledged_once_witness:
  "callback_run example_unmarshal [(False, Unmarshal), (False, Send), (False, Acked)]
       (AtUnmarshal ''m1'') =
     (CallbackReturned, [ToOutput ''m1'', ToBroker ''m1'' BrokerAck]) \<and>
   ToOutput ''m1'' \<in> set [ToOutput ''m1'', ToBroker ''m1'' BrokerAck] \<and>
   decided [(False, Unmarshal), (False, Send), (False, Acked)] BrokerAck \<and>
   callback_run example_unmarshal [(False, Unmarshal), (False, Send), (True, Closing)]
       (AtUnmarshal ''m1'') =
     (CallbackReturned, [ToOutput ''m1'', ToBroker ''m1'' BrokerNack]) \<and>
   decided [(False, Unmarshal), (False, Send), (True, Closing)] BrokerNack"
proof -
  have r1: "callback_run example_unmarshal [(False, Unmarshal), (False, Send), (False, Acked)]
       (AtUnmarshal ''m1'') =
     (CallbackReturned, [ToOutput ''m1'', ToBroker ''m1'' BrokerAck])"
    and r2: "callback_run example_unmarshal [(False, Unmarshal), (False, Send), (True, Closing)]
       (AtUnmarshal ''m1'') =
     (CallbackReturned, [ToOutput ''m1'', ToBroker ''m1'' BrokerNack])"
    by (simp_all add: example_unmarshal_def)
  have o1: "ToOutput ''m1'' \<in> set [ToOutput ''m1'', ToBroker ''m1'' BrokerAck :: (string, string) effect]"
    and o2: "ToOutput ''m1'' \<in> set [ToOutput ''m1'', ToBroker ''m1'' BrokerNack :: (string, string) effect]"
    by simp_all
  note t = delivered_message_acknowledged_once [where unmarshal = example_unmarshal
      and pubsubMsg = "''m1''" and msg = "''m1''", THEN conjunct2, THEN conjunct2, THEN conjunct2,
      THEN conjunct2, THEN conjunct2, rule_format]
  from t [where inputs = "[(False, Unmarshal), (False, Send), (False, Acked)]", OF conjI [OF r1 o1]]
  have d1: "decided [(False, Unmarshal), (False, Send), (False, Acked)] BrokerAck"
    by simp
  from t [where inputs = "[(False, Unmarshal), (False, Send), (True, Closing)]", OF conjI [OF r2 o2]]
  have d2: "decided [(False, Unmarshal), (False, Send), (True, Closing)] BrokerNack"
    by simp
  show ?thesis using r1 r2 d1 d2 by simp
qed

section \<open>Closing the subscriber\<close>

subsection \<open>What holds in every state of a run\<close>

text \<open>
  The wait group counts the loops whose second goroutine has not called \<^verbatim>\<open>Done\<close>;
  the second goroutine gets past line 135 only after \<^verbatim>\<open>receiveFinished\<close> is closed,
  which the first goroutine does after \<^verbatim>\<open>sub.Receive\<close> has returned, which happens
  after all calls of the callback have returned (\<open>loop_ok\<close>). \<^verbatim>\<open>Close\<close> sets \<^verbatim>\<open>closed\<close>
  before anything else, and \<^verbatim>\<open>closed\<close> is set exactly when a call of \<^verbatim>\<open>Close\<close> has
  returned or is under way past line 148 (\<open>inv_close\<close>).
\<close>

definition all_returned :: "('n, 'm) callback list \<Rightarrow> bool" where
  "all_returned cbs = list_all (\<lambda>cb. cb = CallbackReturned) cbs"

definition loop_ok :: "('rs, 'n, 'm) loop \<Rightarrow> bool" where
  "loop_ok l \<longleftrightarrow>
     (closer l \<in> {At136, At137, CloserDone} \<longrightarrow> receiveFinished l) \<and>
     (output_closed l \<longleftrightarrow> closer l \<in> {At137, CloserDone}) \<and>
     (receiveFinished l \<longleftrightarrow> receiving l = ReceiveDone) \<and>
     (receiving l \<noteq> NotStarted \<and> receiving l \<noteq> InReceive \<longrightarrow> all_returned (callbacks l))"

definition pending :: "('rs, 'n, 'm) loop \<Rightarrow> bool" where
  "pending l \<longleftrightarrow> closer l \<noteq> CloserDone"

definition inv_loops :: "('b, 'rs, 'o, 'n, 'm) subscriber \<Rightarrow> bool" where
  "inv_loops s \<longleftrightarrow>
     length (filter pending (loops s)) = wg s \<and> (\<forall>l \<in> set (loops s). loop_ok l)"

definition inv_close :: "('b, 'rs, 'o, 'n, 'm) subscriber \<Rightarrow> bool" where
  "inv_close s \<longleftrightarrow>
     (close_pc s \<in> {At149, At150, At152} \<longrightarrow> closed s) \<and>
     (close_pc s = Idle \<longrightarrow> closed s = (close_returned s \<noteq> [])) \<and>
     (close_pc s \<noteq> Idle \<longrightarrow> close_returned s = [])"

definition inv :: "('b, 'rs, 'o, 'n, 'm) subscriber \<Rightarrow> bool" where
  "inv s \<longleftrightarrow> inv_loops s \<and> inv_close s"

text \<open>
  \<open>settled n\<close>: there are at least \<open>n\<close> loops, and once \<^verbatim>\<open>Close\<close> is past its wait
  the second goroutine of each of the first \<open>n\<close> has called \<^verbatim>\<open>Done\<close>.
\<close>

definition settled :: "nat \<Rightarrow> ('b, 'rs, 'o, 'n, 'm) subscriber \<Rightarrow> bool" where
  "settled n s \<longleftrightarrow>
     n \<le> length (loops s) \<and>
     (close_pc s = At152 \<or> close_returned s \<noteq> [] \<longrightarrow> (\<forall>i < n. \<not> pending (loops s ! i)))"

lemma filter_update_same:
  "i < length xs \<Longrightarrow> P y = P (xs ! i) \<Longrightarrow>
   length (filter P (xs[i := y])) = length (filter P xs)"
proof (induction xs arbitrary: i)
  case Nil
  then show ?case by simp
next
  case (Cons x xs)
  then show ?case by (cases i) auto
qed

lemma filter_update_drop:
  "i < length xs \<Longrightarrow> P (xs ! i) \<Longrightarrow> \<not> P y \<Longrightarrow>
   Suc (length (filter P (xs[i := y]))) = length (filter P xs)"
proof (induction xs arbitrary: i)
  case Nil
  then show ?case by simp
next
  case (Cons x xs)
  then show ?case by (cases i) auto
qed

lemma all_update:
  "\<forall>x \<in> set xs. Q x \<Longrightarrow> Q y \<Longrightarrow> \<forall>x \<in> set (xs[i := y]). Q x"
  by (metis insert_iff set_update_subset_insert subsetD)

lemma callback_step_returned [simp]:
  "callback_step unmarshal cl mv CallbackReturned = None"
  by (cases mv) simp_all

lemma all_returned_nth:
  "all_returned cbs \<Longrightarrow> j < length cbs \<Longrightarrow> cbs ! j = CallbackReturned"
  by (simp add: all_returned_def list_all_length)

lemma receive_step_ok:
  assumes "receive_step unmarshal cd cl dn a l = Some (Some l')" and "loop_ok l"
  shows "loop_ok l' \<and> closer l' = closer l"
proof (cases a)
  case Start
  then show ?thesis using assms
    by (auto simp: receive_step_def loop_ok_def split: if_splits option.splits)
next
  case (Arrive n)
  then show ?thesis using assms
    by (auto simp: receive_step_def loop_ok_def split: if_splits)
next
  case (Callback j mv)
  with assms obtain cb effs where
    j: "j < length (callbacks l)" and
    st: "callback_step unmarshal cl mv (callbacks l ! j) = Some (cb, effs)" and
    l': "l' = apply_effects effs (l\<lparr>callbacks := (callbacks l)[j := cb]\<rparr>)"
    by (auto simp: receive_step_def split: if_splits option.splits)
  have "\<not> all_returned (callbacks l)"
    using all_returned_nth [OF _ j] st by auto
  then have "receiving l = NotStarted \<or> receiving l = InReceive"
    using assms(2) by (auto simp: loop_ok_def)
  then show ?thesis using assms(2) l'
    by (auto simp: loop_ok_def apply_effects_def)
next
  case (ReceiveReturns err)
  then show ?thesis using assms
    by (auto simp: receive_step_def loop_ok_def all_returned_def split: if_splits)
next
  case ReceiveExits
  then show ?thesis using assms
    by (auto simp: receive_step_def loop_ok_def split: receive_pc.splits)
next
  case Closer
  then show ?thesis using assms by (simp add: receive_step_def)
qed

lemma closer_step_ok:
  assumes "closer_step cl n l = Some (Some (l', n'))" and "loop_ok l"
  shows "loop_ok l'"
  using assms
  by (cases "closer l") (auto simp: closer_step_def loop_ok_def split: if_splits)

lemma closer_step_pending:
  assumes "closer_step cl n l = Some (Some (l', n'))"
  shows "(pending l' = pending l \<and> n' = n) \<or> (pending l \<and> \<not> pending l' \<and> n = Suc n')"
  using assms
  by (cases "closer l") (auto simp: closer_step_def pending_def split: if_splits)

lemma done_inert:
  assumes "loop_ok l" and "\<not> pending l"
  shows "receive_step unmarshal cd cl dn a l = None" and "closer_step cl n l = None"
proof -
  from assms have d: "closer l = CloserDone" by (simp add: pending_def)
  with assms have r: "receiving l = ReceiveDone" and c: "all_returned (callbacks l)"
    by (auto simp: loop_ok_def)
  show "closer_step cl n l = None" using d by (simp add: closer_step_def)
  show "receive_step unmarshal cd cl dn a l = None"
  proof (cases a)
    case (Callback j mv)
    then show ?thesis using all_returned_nth [OF c] by (simp add: receive_step_def)
  qed (simp_all add: receive_step_def r)
qed

lemma inv_NewSubscriber: "inv (NewSubscriber b)"
  by (simp add: inv_def inv_loops_def inv_close_def NewSubscriber_def)

lemma loop_ok_new: "loop_ok (new_loop h)" and pending_new: "pending (new_loop h)"
  by (simp_all add: loop_ok_def new_loop_def pending_def all_returned_def)

lemma inv_fields:
  "inv (s\<lparr>reg := r\<rparr>) = inv s"
  "inv (s\<lparr>subscribing := t\<rparr>) = inv s"
  "inv (s\<lparr>ctx_done := d\<rparr>) = inv s"
  "inv (s\<lparr>crashed := x\<rparr>) = inv s"
  by (simp_all add: inv_def inv_loops_def inv_close_def)

lemma inv_add_loop:
  assumes "inv s"
  shows "inv (s\<lparr>reg := r, wg := wg s + 1, loops := loops s @ [new_loop h]\<rparr>)"
proof -
  have "inv_loops (s\<lparr>reg := r, wg := wg s + 1, loops := loops s @ [new_loop h]\<rparr>)"
    using assms by (simp add: inv_def inv_loops_def loop_ok_new pending_new)
  moreover have "inv_close (s\<lparr>reg := r, wg := wg s + 1, loops := loops s @ [new_loop h]\<rparr>)"
    using assms by (simp add: inv_def inv_close_def)
  ultimately show ?thesis by (simp add: inv_def)
qed

text \<open>The rest of \<^verbatim>\<open>Subscribe\<close> changes the registry and perhaps adds one loop.\<close>

lemma Subscribe_rest_cases:
  obtains
    (nothing) r where "fst (Subscribe_rest c cfg s topic) = s\<lparr>reg := r\<rparr>"
  | (added) r h where
      "fst (Subscribe_rest c cfg s topic) =
         s\<lparr>reg := r, wg := wg s + 1, loops := loops s @ [new_loop h]\<rparr>"
proof -
  obtain r res where sp: "subscription c cfg (reg s) (SubscriptionName cfg topic) topic = (r, res)"
    by (cases "subscription c cfg (reg s) (SubscriptionName cfg topic) topic")
  show ?thesis
  proof (cases res)
    case Panicked
    then have "fst (Subscribe_rest c cfg s topic) = s\<lparr>reg := r\<rparr>"
      using sp by (simp add: Subscribe_rest_def)
    then show ?thesis by (rule nothing)
  next
    case (Returned p)
    obtain h err where p: "p = (h, err)" by (cases p)
    show ?thesis
    proof (cases err)
      case (Some e)
      then have "fst (Subscribe_rest c cfg s topic) = s\<lparr>reg := r\<rparr>"
        using sp Returned p by (simp add: Subscribe_rest_def)
      then show ?thesis by (rule nothing)
    next
      case None
      then have "fst (Subscribe_rest c cfg s topic) =
          s\<lparr>reg := r, wg := wg s + 1, loops := loops s @ [new_loop h]\<rparr>"
        using sp Returned p by (simp add: Subscribe_rest_def)
      then show ?thesis by (rule added)
    qed
  qed
qed

lemma inv_Subscribe_rest:
  assumes "inv s"
  shows "inv (fst (Subscribe_rest c cfg s topic))"
proof (cases rule: Subscribe_rest_cases [of c cfg s topic])
  case (nothing r)
  then show ?thesis using assms by (simp add: inv_fields)
next
  case (added r h)
  then show ?thesis using inv_add_loop [OF assms] by simp
qed

lemma inv_loops_close_fields:
  "inv_loops (s\<lparr>close_pc := p\<rparr>) = inv_loops s"
  "inv_loops (s\<lparr>close_returned := cr\<rparr>) = inv_loops s"
  "inv_loops (s\<lparr>closed := b\<rparr>) = inv_loops s"
  "inv_loops (s\<lparr>closing := b\<rparr>) = inv_loops s"
  "inv_loops (s\<lparr>crashed := b\<rparr>) = inv_loops s"
  "inv_loops (s\<lparr>reg := r\<rparr>) = inv_loops s"
  by (simp_all add: inv_loops_def)

text \<open>
  What a step of \<^verbatim>\<open>Close\<close> does, case by case.
\<close>

lemma close_step_cases:
  assumes "close_step c s = Some s'"
  obtains
    (returns_at_once) "close_pc s = Idle" "closed s"
      "s' = s\<lparr>close_returned := close_returned s @ [None]\<rparr>"
  | (starts) "close_pc s = Idle" "\<not> closed s" "s' = s\<lparr>close_pc := At148\<rparr>"
  | (sets_closed) "close_pc s = At148" "s' = s\<lparr>closed := True, close_pc := At149\<rparr>"
  | (panics) "close_pc s = At149" "closing s" "s' = s\<lparr>crashed := True\<rparr>"
  | (closes_closing) "close_pc s = At149" "\<not> closing s"
      "s' = s\<lparr>closing := True, close_pc := At150\<rparr>"
  | (waited) "close_pc s = At150" "wg s = 0" "s' = s\<lparr>close_pc := At152\<rparr>"
  | (returns) r err where "close_pc s = At152" "call_client_Close c (reg s) = (r, err)"
      "s' = s\<lparr>reg := r, close_pc := Idle, close_returned := close_returned s @ [err]\<rparr>"
proof (cases "close_pc s")
  case Idle
  then show ?thesis using assms returns_at_once starts
    by (cases "closed s") (simp_all add: close_step_def)
next
  case At148
  then show ?thesis using assms sets_closed by (simp add: close_step_def)
next
  case At149
  then show ?thesis using assms panics closes_closing
    by (cases "closing s") (simp_all add: close_step_def)
next
  case At150
  then show ?thesis using assms waited by (simp add: close_step_def split: if_splits)
next
  case At152
  obtain r err where cc: "call_client_Close c (reg s) = (r, err)"
    by (cases "call_client_Close c (reg s)")
  then show ?thesis using assms At152 returns by (simp add: close_step_def)
qed

lemma inv_close_step:
  assumes "inv s" and "close_step c s = Some s'"
  shows "inv s'"
proof -
  have l: "inv_loops s" and k: "inv_close s" using assms(1) by (simp_all add: inv_def)
  from assms(2) have "inv_loops s' \<and> inv_close s'"
  proof (cases rule: close_step_cases)
    case returns_at_once
    then show ?thesis using l k by (simp add: inv_loops_close_fields inv_close_def)
  next
    case starts
    then show ?thesis using l k by (simp add: inv_loops_close_fields inv_close_def)
  next
    case sets_closed
    then show ?thesis using l k by (simp add: inv_loops_close_fields inv_close_def)
  next
    case panics
    then show ?thesis using l k by (simp add: inv_loops_close_fields inv_close_def)
  next
    case closes_closing
    then show ?thesis using l k by (simp add: inv_loops_close_fields inv_close_def)
  next
    case waited
    then show ?thesis using l k by (simp add: inv_loops_close_fields inv_close_def)
  next
    case (returns r err)
    then show ?thesis using l k by (simp add: inv_loops_close_fields inv_close_def)
  qed
  then show ?thesis by (simp add: inv_def)
qed

text \<open>What a step of a goroutine of loop \<open>i\<close> does to the subscriber.\<close>

lemma loop_step_cases:
  assumes "loop_step unmarshal i a s = Some s'"
  obtains
    (panics) "i < length (loops s)" "s' = s\<lparr>crashed := True\<rparr>"
  | (closer) l n where "i < length (loops s)"
      "closer_step (closing s) (wg s) (loops s ! i) = Some (Some (l, n))"
      "s' = s\<lparr>wg := n, loops := (loops s)[i := l]\<rparr>"
  | (receiver) l where "i < length (loops s)"
      "receive_step unmarshal (closed s) (closing s) (ctx_done s) a (loops s ! i) = Some (Some l)"
      "s' = s\<lparr>loops := (loops s)[i := l]\<rparr>"
proof -
  from assms have i: "i < length (loops s)"
    by (simp add: loop_step_def split: if_splits)
  show ?thesis
  proof (cases "a = Closer")
    case True
    then show ?thesis using assms i panics closer
      by (auto simp: loop_step_def split: option.splits)
  next
    case False
    then have "loop_step unmarshal i a s =
        (case receive_step unmarshal (closed s) (closing s) (ctx_done s) a (loops s ! i) of
           None \<Rightarrow> None | Some None \<Rightarrow> Some (s\<lparr>crashed := True\<rparr>)
         | Some (Some l) \<Rightarrow> Some (s\<lparr>loops := (loops s)[i := l]\<rparr>))"
      using i by (cases a) (simp_all add: loop_step_def)
    then show ?thesis using assms i panics receiver
      by (auto split: option.splits)
  qed
qed

lemma inv_close_loop_fields:
  "inv_close (s\<lparr>wg := n\<rparr>) = inv_close s"
  "inv_close (s\<lparr>loops := ls\<rparr>) = inv_close s"
  by (simp_all add: inv_close_def)

lemma inv_loop_step:
  assumes "inv s" and "loop_step unmarshal i a s = Some s'"
  shows "inv s'"
proof -
  have l: "inv_loops s" and k: "inv_close s" using assms(1) by (simp_all add: inv_def)
  have lens: "length (filter pending (loops s)) = wg s" and oks: "\<forall>l \<in> set (loops s). loop_ok l"
    using l by (simp_all add: inv_loops_def)
  from assms(2) show ?thesis
  proof (cases rule: loop_step_cases)
    case panics
    then show ?thesis using assms(1) by (simp add: inv_fields)
  next
    case (closer l' n)
    have oki: "loop_ok (loops s ! i)" using oks closer(1) by simp
    have ok: "loop_ok l'" using closer_step_ok [OF closer(2) oki] .
    have all: "\<forall>x \<in> set ((loops s)[i := l']). loop_ok x"
      using all_update [OF oks ok] .
    have cnt: "length (filter pending ((loops s)[i := l'])) = n"
    proof -
      from closer_step_pending [OF closer(2)]
      show ?thesis
      proof
        assume "pending l' = pending (loops s ! i) \<and> n = wg s"
        then show ?thesis
          using filter_update_same [OF closer(1), of pending l'] lens by simp
      next
        assume "pending (loops s ! i) \<and> \<not> pending l' \<and> wg s = Suc n"
        then show ?thesis
          using filter_update_drop [OF closer(1), of pending l'] lens by simp
      qed
    qed
    have "inv_loops s'" using all cnt by (simp add: closer(3) inv_loops_def)
    moreover have "inv_close s'" using k by (simp add: closer(3) inv_close_loop_fields)
    ultimately show ?thesis by (simp add: inv_def)
  next
    case (receiver l')
    have oki: "loop_ok (loops s ! i)" using oks receiver(1) by simp
    have ok: "loop_ok l' \<and> closer l' = closer (loops s ! i)"
      using receive_step_ok [OF receiver(2) oki] .
    have all: "\<forall>x \<in> set ((loops s)[i := l']). loop_ok x"
      using all_update [OF oks, of l' i] ok by simp
    have cnt: "length (filter pending ((loops s)[i := l'])) = length (filter pending (loops s))"
      using filter_update_same [OF receiver(1), of pending l'] ok by (simp add: pending_def)
    have "inv_loops s'" using all cnt lens by (simp add: receiver(3) inv_loops_def)
    moreover have "inv_close s'" using k by (simp add: receiver(3) inv_close_loop_fields)
    ultimately show ?thesis by (simp add: inv_def)
  qed
qed

text \<open>What a step of the whole does, case by case.\<close>

lemma fire_cases:
  assumes "fire unmarshal c cfg lbl s = Some s'"
  obtains
    (enter) topic where "lbl = EnterSubscribe topic"
      "s' = (if closed s then s else s\<lparr>subscribing := subscribing s @ [topic]\<rparr>)"
  | (run) j where "lbl = RunSubscribe j" "j < length (subscribing s)"
      "s' = (fst (Subscribe_rest c cfg s (subscribing s ! j)))
              \<lparr>subscribing := take j (subscribing s) @ drop (Suc j) (subscribing s)\<rparr>"
  | (close) "lbl = DoClose" "close_step c s = Some s'"
  | (ctx) "lbl = CtxDone" "s' = s\<lparr>ctx_done := True\<rparr>"
  | (loop) i a where "lbl = Loop i a" "loop_step unmarshal i a s = Some s'"
  using assms by (cases lbl) (auto simp: fire_def split: if_splits)

lemma fire_not_crashed: "fire unmarshal c cfg lbl s = Some s' \<Longrightarrow> \<not> crashed s"
  by (simp add: fire_def split: if_splits)

lemma inv_fire:
  assumes "inv s" and "fire unmarshal c cfg lbl s = Some s'"
  shows "inv s'"
  using assms(2)
proof (cases rule: fire_cases)
  case (enter topic)
  then show ?thesis using assms(1) by (simp add: inv_fields)
next
  case (run j)
  then show ?thesis using inv_Subscribe_rest [OF assms(1)] by (simp add: inv_fields)
next
  case close
  then show ?thesis using inv_close_step [OF assms(1)] by simp
next
  case ctx
  then show ?thesis using assms(1) by (simp add: inv_fields)
next
  case (loop i a)
  then show ?thesis using inv_loop_step [OF assms(1)] by simp
qed

lemma inv_exec:
  "inv s \<Longrightarrow> exec unmarshal c cfg lbls s = Some s' \<Longrightarrow> inv s'"
proof (induction lbls arbitrary: s)
  case Nil
  then show ?case by simp
next
  case (Cons lbl lbls)
  from Cons.prems(2) obtain s1 where
    f: "fire unmarshal c cfg lbl s = Some s1" and e: "exec unmarshal c cfg lbls s1 = Some s'"
    by (auto split: option.splits)
  from Cons.IH [OF inv_fire [OF Cons.prems(1) f] e] show ?case .
qed

lemma inv_wg_zero:
  assumes "inv s" and "wg s = 0"
  shows "\<forall>l \<in> set (loops s). \<not> pending l"
proof -
  from assms have "filter pending (loops s) = []" by (simp add: inv_def inv_loops_def)
  then show ?thesis by (simp add: filter_empty_conv)
qed

lemma inv_loop_ok: "inv s \<Longrightarrow> i < length (loops s) \<Longrightarrow> loop_ok (loops s ! i)"
  by (simp add: inv_def inv_loops_def)

lemma settled_fields:
  "settled n (s\<lparr>reg := r\<rparr>) = settled n s"
  "settled n (s\<lparr>subscribing := t\<rparr>) = settled n s"
  "settled n (s\<lparr>ctx_done := d\<rparr>) = settled n s"
  "settled n (s\<lparr>crashed := x\<rparr>) = settled n s"
  "settled n (s\<lparr>wg := w\<rparr>) = settled n s"
  "settled n (s\<lparr>closed := x\<rparr>) = settled n s"
  "settled n (s\<lparr>closing := x\<rparr>) = settled n s"
  by (simp_all add: settled_def)

lemma settled_add_loop:
  assumes "settled n s"
  shows "settled n (s\<lparr>loops := loops s @ [l]\<rparr>)"
  using assms by (auto simp: settled_def nth_append)

text \<open>A loop whose second goroutine is done takes no step and is never changed.\<close>

lemma loop_step_keeps_done:
  assumes "inv s" and "loop_step unmarshal i a s = Some s'" and "j < length (loops s)"
    and "\<not> pending (loops s ! j)"
  shows "loops s' ! j = loops s ! j"
  using assms(2)
proof (cases rule: loop_step_cases)
  case panics
  then show ?thesis by simp
next
  case (closer l n)
  from done_inert(2) [OF inv_loop_ok [OF assms(1,3)] assms(4), of "closing s" "wg s"] closer(2)
  have "i \<noteq> j" by auto
  then show ?thesis using closer(3) by simp
next
  case (receiver l)
  from done_inert(1) [OF inv_loop_ok [OF assms(1,3)] assms(4),
      of unmarshal "closed s" "closing s" "ctx_done s" a] receiver(2)
  have "i \<noteq> j" by auto
  then show ?thesis using receiver(3) by simp
qed

lemma fire_keeps_done:
  assumes "inv s" and "fire unmarshal c cfg lbl s = Some s'" and "j < length (loops s)"
    and "\<not> pending (loops s ! j)"
  shows "loops s' ! j = loops s ! j"
  using assms(2)
proof (cases rule: fire_cases)
  case (enter topic)
  then show ?thesis by simp
next
  case (run k)
  show ?thesis
  proof (cases rule: Subscribe_rest_cases [of c cfg s "subscribing s ! k"])
    case (nothing r)
    then show ?thesis using run by simp
  next
    case (added r h)
    then show ?thesis using run assms(3) by (simp add: nth_append)
  qed
next
  case close
  from close(2) show ?thesis by (cases rule: close_step_cases) simp_all
next
  case ctx
  then show ?thesis by simp
next
  case (loop i a)
  then show ?thesis using loop_step_keeps_done [OF assms(1) _ assms(3,4)] by simp
qed

lemma fire_length:
  assumes "fire unmarshal c cfg lbl s = Some s'"
  shows "length (loops s) \<le> length (loops s')"
  using assms
proof (cases rule: fire_cases)
  case (enter topic)
  then show ?thesis by simp
next
  case (run k)
  show ?thesis
  proof (cases rule: Subscribe_rest_cases [of c cfg s "subscribing s ! k"])
    case (nothing r)
    then show ?thesis using run by simp
  next
    case (added r h)
    then show ?thesis using run by simp
  qed
next
  case close
  from close(2) show ?thesis by (cases rule: close_step_cases) simp_all
next
  case ctx
  then show ?thesis by simp
next
  case (loop i a)
  from loop(2) show ?thesis by (cases rule: loop_step_cases) simp_all
qed

lemma fire_past_wait:
  assumes "inv s" and "fire unmarshal c cfg lbl s = Some s'"
    and "close_pc s' = At152 \<or> close_returned s' \<noteq> []"
  shows "(close_pc s = At152 \<or> close_returned s \<noteq> []) \<or>
         (wg s = 0 \<and> loops s' = loops s)"
  using assms(2)
proof (cases rule: fire_cases)
  case (enter topic)
  then show ?thesis using assms(3) by (auto split: if_splits)
next
  case (run k)
  then show ?thesis using assms(3)
    by (cases rule: Subscribe_rest_cases [of c cfg s "subscribing s ! k"]) auto
next
  case close
  from close(2) show ?thesis
  proof (cases rule: close_step_cases)
    case returns_at_once
    then show ?thesis using assms(1) by (auto simp: inv_def inv_close_def)
  qed (use assms(3) in auto)
next
  case ctx
  then show ?thesis using assms(3) by auto
next
  case (loop i a)
  from loop(2) show ?thesis using assms(3) by (cases rule: loop_step_cases) auto
qed

lemma settled_fire:
  assumes i: "inv s" and st: "settled n s" and f: "fire unmarshal c cfg lbl s = Some s'"
  shows "settled n s'"
proof -
  have len: "n \<le> length (loops s')" using st fire_length [OF f] by (simp add: settled_def)
  have "\<not> pending (loops s' ! j)"
    if past: "close_pc s' = At152 \<or> close_returned s' \<noteq> []" and j: "j < n" for j
  proof -
    have jl: "j < length (loops s)" using st j by (simp add: settled_def)
    from fire_past_wait [OF i f past] show ?thesis
    proof
      assume "close_pc s = At152 \<or> close_returned s \<noteq> []"
      then have d: "\<not> pending (loops s ! j)" using st j by (simp add: settled_def)
      from fire_keeps_done [OF i f jl d] d show ?thesis by simp
    next
      assume w: "wg s = 0 \<and> loops s' = loops s"
      then show ?thesis using inv_wg_zero [OF i] jl by simp
    qed
  qed
  with len show ?thesis by (simp add: settled_def)
qed

lemma settled_exec:
  "inv s \<Longrightarrow> settled n s \<Longrightarrow> exec unmarshal c cfg lbls s = Some s' \<Longrightarrow> settled n s'"
proof (induction lbls arbitrary: s)
  case Nil
  then show ?case by simp
next
  case (Cons lbl lbls)
  from Cons.prems(3) obtain s1 where
    f: "fire unmarshal c cfg lbl s = Some s1" and e: "exec unmarshal c cfg lbls s1 = Some s'"
    by (auto split: option.splits)
  from Cons.IH [OF inv_fire [OF Cons.prems(1) f] settled_fire [OF Cons.prems(1,2) f] e]
  show ?case .
qed

lemma returned_stays:
  assumes "inv s" and "close_returned s \<noteq> []" and "fire unmarshal c cfg lbl s = Some s'"
  shows "close_returned s' \<noteq> []"
  using assms(3)
proof (cases rule: fire_cases)
  case (enter topic)
  then show ?thesis using assms(2) by simp
next
  case (run k)
  then show ?thesis using assms(2)
    by (cases rule: Subscribe_rest_cases [of c cfg s "subscribing s ! k"]) auto
next
  case close
  from close(2) show ?thesis using assms(1,2)
    by (cases rule: close_step_cases) (auto simp: inv_def inv_close_def)
next
  case ctx
  then show ?thesis using assms(2) by simp
next
  case (loop i a)
  from loop(2) show ?thesis using assms(2) by (cases rule: loop_step_cases) auto
qed

lemma done_exec_keeps:
  "inv s \<Longrightarrow> settled n s \<Longrightarrow> close_returned s \<noteq> [] \<Longrightarrow>
   exec unmarshal c cfg lbls s = Some s' \<Longrightarrow> i < n \<Longrightarrow> loops s' ! i = loops s ! i"
proof (induction lbls arbitrary: s)
  case Nil
  then show ?case by simp
next
  case (Cons lbl lbls)
  from Cons.prems(4) obtain s1 where
    f: "fire unmarshal c cfg lbl s = Some s1" and e: "exec unmarshal c cfg lbls s1 = Some s'"
    by (auto split: option.splits)
  have il: "i < length (loops s)" and d: "\<not> pending (loops s ! i)"
    using Cons.prems(2,3,5) by (simp_all add: settled_def)
  have "loops s1 ! i = loops s ! i" using fire_keeps_done [OF Cons.prems(1) f il d] .
  moreover have "loops s' ! i = loops s1 ! i"
    using Cons.IH [OF inv_fire [OF Cons.prems(1) f] settled_fire [OF Cons.prems(1,2) f]
        returned_stays [OF Cons.prems(1,3) f] e Cons.prems(5)] .
  ultimately show ?case by simp
qed

text \<open>
  Claim C8. On a closed subscriber (\<^verbatim>\<open>closed\<close> is set) \<^verbatim>\<open>Subscribe\<close> returns
  \<^verbatim>\<open>ErrSubscriberClosed\<close> and no channel, and leaves the subscriber as it is: the
  registry is untouched (no subscription resolved, no remote call), no loop is added and
  the wait group is not incremented; in a run, the call ends with the test of line 98.
  And \<^verbatim>\<open>closed\<close> is set in every state of a run in which a call of \<^verbatim>\<open>Close\<close> has
  returned or has got past line 148.
\<close>

theorem Subscribe_after_Close:
  "(closed s \<longrightarrow> Subscribe c cfg s topic = (s, Returned (None, Some ErrSubscriberClosed))) \<and>
   (closed s \<and> \<not> crashed s \<longrightarrow> fire unmarshal c cfg (EnterSubscribe topic) s = Some s) \<and>
   (exec unmarshal c cfg lbls (NewSubscriber b) = Some s \<and>
    (close_returned s \<noteq> [] \<or> close_pc s \<in> {At149, At150, At152}) \<longrightarrow> closed s)"
proof -
  have "closed s" if "exec unmarshal c cfg lbls (NewSubscriber b) = Some s"
    and "close_returned s \<noteq> [] \<or> close_pc s \<in> {At149, At150, At152}"
  proof -
    have "inv s" using inv_exec [OF inv_NewSubscriber that(1)] .
    then have "inv_close s" by (simp add: inv_def)
    then show ?thesis using that(2) by (cases "close_pc s") (auto simp: inv_close_def)
  qed
  then show ?thesis by (auto simp: Subscribe_def fire_def)
qed

theorem Subscribe_after_Close_witness:
  "exec example_unmarshal (sim_client 0) (example_config False False)
     (example_start @ example_shutdown) (NewSubscriber (empty_broker [])) = Some example_closed \<and>
   close_returned example_closed = [None] \<and> closed example_closed \<and>
   \<not> crashed example_closed \<and>
   Subscribe (sim_client 0) (example_config False False) example_closed ''billing'' =
     (example_closed, Returned (None, Some ErrSubscriberClosed)) \<and>
   fire example_unmarshal (sim_client 0) (example_config False False)
     (EnterSubscribe ''billing'') example_closed = Some example_closed"
proof -
  have r: "close_returned example_closed = [None]" and n: "\<not> crashed example_closed"
    by (simp_all add: example_closed_def)
  note t = Subscribe_after_Close [where unmarshal = example_unmarshal and c = "sim_client 0"
      and cfg = "example_config False False" and lbls = "example_start @ example_shutdown"
      and b = "empty_broker []" and s = example_closed and topic = "''billing''"]
  from t [THEN conjunct2, THEN conjunct2] example_runs r have c: "closed example_closed" by simp
  with t [THEN conjunct1] t [THEN conjunct2, THEN conjunct1] example_runs r n
  show ?thesis by simp
qed

text \<open>
  Claim C7. Once a call of \<^verbatim>\<open>Close\<close> has returned, in any state the subscriber can
  then be in (the program still running), the next call of \<^verbatim>\<open>Close\<close> returns nil at
  line 145, in one step that changes nothing else: \<^verbatim>\<open>closing\<close> is not closed again,
  nothing is waited for and the client is not closed a second time.
\<close>

theorem Close_idempotent:
  assumes "exec unmarshal c cfg lbls (NewSubscriber b) = Some s" and "close_returned s \<noteq> []"
    and "\<not> crashed s"
  shows "fire unmarshal c cfg DoClose s = Some (s\<lparr>close_returned := close_returned s @ [None]\<rparr>)"
proof -
  have "inv s" using inv_exec [OF inv_NewSubscriber assms(1)] .
  then have "inv_close s" by (simp add: inv_def)
  then have "closed s" "close_pc s = Idle"
    using assms(2) by (cases "close_pc s"; auto simp: inv_close_def)+
  then show ?thesis using assms(3) by (simp add: fire_def close_step_def)
qed

theorem Close_idempotent_witness:
  "exec example_unmarshal (sim_client 0) (example_config False False)
     (example_start @ example_shutdown) (NewSubscriber (empty_broker [])) = Some example_closed \<and>
   close_returned example_closed = [None] \<and> \<not> crashed example_closed \<and>
   fire example_unmarshal (sim_client 0) (example_config False False) DoClose example_closed =
     Some (example_closed\<lparr>close_returned := [None, None]\<rparr>)"
proof -
  have r: "close_returned example_closed = [None]" and n: "\<not> crashed example_closed"
    by (simp_all add: example_closed_def)
  then have ne: "close_returned example_closed \<noteq> []" by simp
  from Close_idempotent [where unmarshal = example_unmarshal and c = "sim_client 0"
      and cfg = "example_config False False" and lbls = "example_start @ example_shutdown"
      and b = "empty_broker []" and s = example_closed, OF example_runs ne n]
  show ?thesis using example_runs r n by simp
qed

text \<open>
  Claim C6. Take any state \<open>s\<close> of a run in which the wait of \<^verbatim>\<open>Close\<close> (line 150)
  has not ended yet, \<^verbatim>\<open>Close\<close> called or not: its loops are the channels \<^verbatim>\<open>Subscribe\<close>
  has returned up to then. However the run goes on (further calls of \<^verbatim>\<open>Subscribe\<close>
  included, also ones that overlap \<^verbatim>\<open>Close\<close>), once the call of \<^verbatim>\<open>Close\<close> has
  returned, for each of those loops \<^verbatim>\<open>sub.Receive\<close> has returned and the receiving
  goroutine has finished, no call of the callback is still running, and the output
  channel is closed; and whatever happens afterwards, the loop stays exactly as it is,
  so no message is sent on its channel again.
\<close>

theorem Close_returns_after_loops:
  assumes before: "exec unmarshal c cfg lbls (NewSubscriber b) = Some s"
    and waiting: "close_pc s \<noteq> At152 \<and> close_returned s = []"
    and during: "exec unmarshal c cfg lbls' s = Some s'"
    and returned: "close_returned s' \<noteq> []"
  shows "\<forall>i < length (loops s).
           i < length (loops s') \<and>
           receiving (loops s' ! i) = ReceiveDone \<and> all_returned (callbacks (loops s' ! i)) \<and>
           closer (loops s' ! i) = CloserDone \<and>
           receiveFinished (loops s' ! i) \<and> output_closed (loops s' ! i) \<and>
           (\<forall>lbls'' s''. exec unmarshal c cfg lbls'' s' = Some s'' \<longrightarrow>
              loops s'' ! i = loops s' ! i)"
proof (intro allI impI)
  fix i assume i: "i < length (loops s)"
  have inv_s: "inv s" using inv_exec [OF inv_NewSubscriber before] .
  have st: "settled (length (loops s)) s" using waiting by (simp add: settled_def)
  have inv_s': "inv s'" using inv_exec [OF inv_s during] .
  have st': "settled (length (loops s)) s'" using settled_exec [OF inv_s st during] .
  then have il: "i < length (loops s')" and d: "\<not> pending (loops s' ! i)"
    using i returned by (simp_all add: settled_def)
  have ok: "loop_ok (loops s' ! i)" using inv_loop_ok [OF inv_s' il] .
  have "\<forall>lbls'' s''. exec unmarshal c cfg lbls'' s' = Some s'' \<longrightarrow> loops s'' ! i = loops s' ! i"
    using done_exec_keeps [OF inv_s' st' returned _ i] by blast
  then show "i < length (loops s') \<and>
           receiving (loops s' ! i) = ReceiveDone \<and> all_returned (callbacks (loops s' ! i)) \<and>
           closer (loops s' ! i) = CloserDone \<and>
           receiveFinished (loops s' ! i) \<and> output_closed (loops s' ! i) \<and>
           (\<forall>lbls'' s''. exec unmarshal c cfg lbls'' s' = Some s'' \<longrightarrow>
              loops s'' ! i = loops s' ! i)"
    using il d ok by (auto simp: loop_ok_def pending_def)
qed

theorem Close_returns_after_loops_witness:
  "exec example_unmarshal (sim_client 0) (example_config False False) example_start
     (NewSubscriber (empty_broker [])) = Some example_running \<and>
   close_pc example_running = Idle \<and> close_returned example_running = [] \<and>
   length (loops example_running) = 1 \<and>
   exec example_unmarshal (sim_client 0) (example_config False False) example_shutdown
     example_running = Some example_closed \<and>
   close_returned example_closed = [None] \<and>
   receiving (loops example_closed ! 0) = ReceiveDone \<and>
   output_closed (loops example_closed ! 0) \<and>
   output_sent (loops example_closed ! 0) = [''m1''] \<and>
   exec example_unmarshal (sim_client 0) (example_config False False)
     [EnterSubscribe ''billing'', CtxDone, DoClose] example_closed =
     Some (example_closed\<lparr>ctx_done := True, close_returned := [None, None]\<rparr>) \<and>
   loops (example_closed\<lparr>ctx_done := True, close_returned := [None, None]\<rparr>) ! 0 =
     loops example_closed ! 0"
proof -
  have idle: "close_pc example_running = Idle" and nr: "close_returned example_running = []"
    and len: "length (loops example_running) = 1"
    by (simp_all add: example_running_def)
  from idle nr have w: "close_pc example_running \<noteq> At152 \<and> close_returned example_running = []"
    by simp
  have r: "close_returned example_closed = [None]" by (simp add: example_closed_def)
  then have ne: "close_returned example_closed \<noteq> []" by simp
  note t = Close_returns_after_loops [where unmarshal = example_unmarshal and c = "sim_client 0"
      and cfg = "example_config False False" and lbls = example_start
      and b = "empty_broker []" and s = example_running and lbls' = example_shutdown
      and s' = example_closed, OF example_start_runs w example_shutdown_runs ne,
      rule_format, of 0]
  have e: "exec example_unmarshal (sim_client 0) (example_config False False)
     [EnterSubscribe ''billing'', CtxDone, DoClose] example_closed =
     Some (example_closed\<lparr>ctx_done := True, close_returned := [None, None]\<rparr>)"
    by (simp add: example_closed_def subscriber_defs)
  have z: "0 < length (loops example_running)" using len by simp
  note t0 = t [OF z]
  from t0 have d: "receiving (loops example_closed ! 0) = ReceiveDone"
    "output_closed (loops example_closed ! 0)" by simp_all
  from t0 have "\<forall>lbls'' s''.
      exec example_unmarshal (sim_client 0) (example_config False False) lbls'' example_closed =
        Some s'' \<longrightarrow> loops s'' ! 0 = loops example_closed ! 0"
    by (elim conjE)
  from this [rule_format, OF e]
  have k: "loops (example_closed\<lparr>ctx_done := True, close_returned := [None, None]\<rparr>) ! 0 =
     loops example_closed ! 0" .
  have m: "output_sent (loops example_closed ! 0) = [''m1'']"
    by (simp add: example_closed_def)
  show ?thesis using example_start_runs example_shutdown_runs idle nr len r d e k m by simp
qed

text \<open>
  Claim C6 as stated covers every channel returned before \<^verbatim>\<open>Close\<close> returns. The
  channels returned after the wait has ended are not covered above, and they exist.
  Line 98 reads \<^verbatim>\<open>closed\<close> without any lock, so a call of \<^verbatim>\<open>Subscribe\<close> that read it
  before \<^verbatim>\<open>Close\<close> set it is held back by nothing: in \<open>example_late\<close> it registers its
  loop (line 121) and returns its channel after the wait of \<^verbatim>\<open>Close\<close> saw the counter
  at zero and before the client is closed. \<^verbatim>\<open>Close\<close> then returns with that loop still
  receiving and the channel open, and the callback, which has unmarshaled its message
  by then, sends it on the channel afterwards.
\<close>

theorem late_channel_open_when_Close_returns:
  "exec example_unmarshal (sim_client 0) (example_config False False) example_late
     (NewSubscriber (empty_broker [])) = Some example_overtaken \<and>
   length (loops example_overtaken) = 1 \<and> close_returned example_overtaken = [] \<and>
   exec example_unmarshal (sim_client 0) (example_config False False) [DoClose]
     example_overtaken =
     Some (example_overtaken
       \<lparr>reg := example_registry
          \<lparr>broker := (broker example_registry)\<lparr>sim_closed := True\<rparr>,
           calls := calls example_registry @ [(ClientClose, None)]\<rparr>,
        close_pc := Idle, close_returned := [None]\<rparr>) \<and>
   exec example_unmarshal (sim_client 0) (example_config False False)
     [DoClose, Loop 0 (Callback 0 Send)] example_overtaken =
     Some (example_overtaken
       \<lparr>reg := example_registry
          \<lparr>broker := (broker example_registry)\<lparr>sim_closed := True\<rparr>,
           calls := calls example_registry @ [(ClientClose, None)]\<rparr>,
        loops :=
          [\<lparr>loop_sub = Some \<lparr>sub_name = ''orders'', sub_ReceiveSettings = 7\<rparr>,
            cancelled = False, callbacks = [AtAwait ''m1'' ''m1''],
            receiving = InReceive, receive_result = None, receiveFinished = False,
            output_sent = [''m1''], output_closed = False, acked = [], closer = At131\<rparr>],
        close_pc := Idle, close_returned := [None]\<rparr>)"
  by (simp add: example_late_def example_overtaken_def example_registry_def
      example_unmarshal_def subscriber_defs registry_defs sim_defs)

section \<open>Concurrent resolves: the registry under its lock\<close>

text \<open>
  Several goroutines inside \<^verbatim>\<open>subscription\<close> at once. Each call is at one of these
  places, named by the line it is about to run: the read lock (208), the read of the
  map (209), the release of the read lock with the test of \<open>ok\<close> (210 to 213), the
  write lock (215), then one place before each remote call with the tests up to the
  next one (223 to 235, 237 to 245, 248 to 252, 254 to 259), then the two deferred
  functions in the order they run (218 to 220, then the unlock of 216).
\<close>

datatype pc = L208 | L209 | L210 | L215 | L223 | L237 | L248 | L254 | D218 | D216 | Finished

text \<open>
  A call's own variables: its two arguments, the named results \<open>sub\<close> and \<open>err\<close>, the
  locals \<open>ok\<close> and \<open>t\<close>, and whether it is unwinding from the panic of line 257.
\<close>

record 'rs caller =
  pc :: pc
  arg_name :: string
  arg_topic :: string
  v_sub :: "'rs subscription_handle option"
  v_err :: "error option"
  v_ok :: bool
  v_t :: "topic_handle option"
  panicking :: bool

definition new_caller :: "string \<Rightarrow> string \<Rightarrow> 'rs caller" where
  "new_caller subscriptionName topicName =
     \<lparr>pc = L208, arg_name = subscriptionName, arg_topic = topicName, v_sub = None,
      v_err = None, v_ok = False, v_t = None, panicking = False\<rparr>"

definition caller_outcome ::
  "'rs caller \<Rightarrow> ('rs subscription_handle option \<times> error option) outcome option" where
  "caller_outcome k =
     (if pc k = Finished
      then Some (if panicking k then Panicked else Returned (v_sub k, v_err k))
      else None)"

text \<open>
  The steps that touch neither lock, each on the caller's variables and the registry.
  They make the same calls and tests as the one-caller model above.
\<close>

definition local_step ::
  "('b, 'rs, 'o) client \<Rightarrow> ('rs, 'o) subscriber_config \<Rightarrow> 'rs caller \<Rightarrow> ('b, 'rs, 'o) registry
    \<Rightarrow> 'rs caller \<times> ('b, 'rs, 'o) registry" where
  "local_step c cfg k r =
     (case pc k of
        L209 \<Rightarrow>
          (k\<lparr>v_sub := (case activeSubscriptions r (arg_name k) of None \<Rightarrow> None | Some s \<Rightarrow> s),
             v_ok := (activeSubscriptions r (arg_name k) \<noteq> None), pc := L210\<rparr>, r)
      | L223 \<Rightarrow>
          (let sub = client_Subscription c (arg_name k) in
           case call_sub_Exists c r sub of (r1, exists, err) \<Rightarrow>
             (case err of
                Some e \<Rightarrow>
                  (k\<lparr>v_sub := None,
                     v_err := Some (Wrap e
                       (''could not check if subscription '' @ arg_name k @ '' exists'')),
                     pc := D218\<rparr>, r1)
              | None \<Rightarrow>
                  if exists then (k\<lparr>v_sub := Some sub, v_err := None, pc := D218\<rparr>, r1)
                  else if DoNotCreateSubscriptionIfMissing cfg
                  then (k\<lparr>v_sub := None,
                          v_err := Some (Wrap ErrSubscriptionDoesNotExist (arg_name k)),
                          pc := D218\<rparr>, r1)
                  else (k\<lparr>v_sub := Some sub, v_err := None, pc := L237\<rparr>, r1)))
      | L237 \<Rightarrow>
          (let t = client_Topic c (arg_topic k) in
           case call_topic_Exists c r t of (r1, exists, err) \<Rightarrow>
             (case err of
                Some e \<Rightarrow>
                  (k\<lparr>v_sub := None,
                     v_err := Some (Wrap e
                       (''could not check if topic '' @ arg_topic k @ '' exists'')),
                     v_t := Some t, pc := D218\<rparr>, r1)
              | None \<Rightarrow>
                  if \<not> exists \<and> DoNotCreateTopicIfMissing cfg
                  then (k\<lparr>v_sub := None,
                          v_err := Some (Wrap ErrTopicDoesNotExist (arg_topic k)),
                          v_t := Some t, pc := D218\<rparr>, r1)
                  else if \<not> exists then (k\<lparr>v_err := None, v_t := Some t, pc := L248\<rparr>, r1)
                  else (k\<lparr>v_err := None, v_t := Some t, pc := L254\<rparr>, r1)))
      | L248 \<Rightarrow>
          (case call_CreateTopic c r (arg_topic k) of (r1, t, err) \<Rightarrow>
             (case err of
                Some e \<Rightarrow>
                  (k\<lparr>v_sub := None,
                     v_err := Some (Wrap e ''could not create topic for subscription''),
                     v_t := t, pc := D218\<rparr>, r1)
              | None \<Rightarrow> (k\<lparr>v_err := None, v_t := t, pc := L254\<rparr>, r1)))
      | L254 \<Rightarrow>
          (let config = (SubscriptionConfig cfg)\<lparr>Topic := v_t k\<rparr> in
           case call_CreateSubscription c r (arg_name k) config of (r1, sub, err) \<Rightarrow>
             (case sub of
                None \<Rightarrow> (k\<lparr>v_sub := None, v_err := err, panicking := True, pc := D218\<rparr>, r1)
              | Some h \<Rightarrow>
                  (k\<lparr>v_sub := Some (h\<lparr>sub_ReceiveSettings := ReceiveSettings cfg\<rparr>),
                     v_err := err, pc := D218\<rparr>, r1)))
      | D218 \<Rightarrow> (k\<lparr>pc := D216\<rparr>, deferred_store (arg_name k) (v_sub k) (v_err k) r)
      | _ \<Rightarrow> (k, r))"

text \<open>
  The registry with its \<^verbatim>\<open>sync.RWMutex\<close> and the calls under way. A read lock is
  granted when no writer holds the lock, the write lock when nobody holds it; a caller
  that asks in vain is blocked and has no step. (The mutex also keeps new readers out
  while a writer waits; leaving that out only adds runs.)
\<close>

record ('b, 'rs, 'o) guarded =
  guarded_registry :: "('b, 'rs, 'o) registry"
  readers :: nat
  writer :: bool
  callers :: "'rs caller list"

definition start ::
  "('b, 'rs, 'o) registry \<Rightarrow> (string \<times> string) list \<Rightarrow> ('b, 'rs, 'o) guarded" where
  "start r args =
     \<lparr>guarded_registry = r, readers = 0, writer = False,
      callers = map (\<lambda>(subscriptionName, topicName). new_caller subscriptionName topicName) args\<rparr>"

definition advance ::
  "('b, 'rs, 'o) client \<Rightarrow> ('rs, 'o) subscriber_config \<Rightarrow> nat \<Rightarrow> ('b, 'rs, 'o) guarded
    \<Rightarrow> ('b, 'rs, 'o) guarded option" where
  "advance c cfg i s =
     (if i < length (callers s)
      then (let k = callers s ! i in
            case pc k of
              L208 \<Rightarrow>
                if writer s then None
                else Some (s\<lparr>readers := readers s + 1, callers := (callers s)[i := k\<lparr>pc := L209\<rparr>]\<rparr>)
            | L210 \<Rightarrow>
                Some (s\<lparr>readers := readers s - 1,
                        callers := (callers s)[i := k\<lparr>pc := (if v_ok k then Finished else L215)\<rparr>]\<rparr>)
            | L215 \<Rightarrow>
                if writer s \<or> readers s \<noteq> 0 then None
                else Some (s\<lparr>writer := True, callers := (callers s)[i := k\<lparr>pc := L223\<rparr>]\<rparr>)
            | D216 \<Rightarrow> Some (s\<lparr>writer := False, callers := (callers s)[i := k\<lparr>pc := Finished\<rparr>]\<rparr>)
            | Finished \<Rightarrow> None
            | _ \<Rightarrow>
                (case local_step c cfg k (guarded_registry s) of
                   (k', r) \<Rightarrow> Some (s\<lparr>guarded_registry := r, callers := (callers s)[i := k']\<rparr>)))
      else None)"

text \<open>
  A schedule names, step by step, the caller to run next; a caller that is blocked or
  has finished when its turn comes is passed over.
\<close>

fun run ::
  "('b, 'rs, 'o) client \<Rightarrow> ('rs, 'o) subscriber_config \<Rightarrow> nat list \<Rightarrow> ('b, 'rs, 'o) guarded
    \<Rightarrow> ('b, 'rs, 'o) guarded" where
  "run c cfg [] s = s"
| "run c cfg (i # schedule) s =
     run c cfg schedule (case advance c cfg i s of None \<Rightarrow> s | Some s' \<Rightarrow> s')"

text \<open>
  What the log of remote calls must look like: once a \<^verbatim>\<open>CreateSubscription\<close> for a name
  has succeeded, no later call is a \<^verbatim>\<open>CreateSubscription\<close> for that name.
\<close>

fun creates :: "string \<Rightarrow> 'o call \<times> error option \<Rightarrow> bool" where
  "creates name (CreateSubscription n config, err) = (n = name)"
| "creates name _ = False"

definition created :: "string \<Rightarrow> 'o call \<times> error option \<Rightarrow> bool" where
  "created name x = (creates name x \<and> snd x = None)"

fun created_once :: "('o call \<times> error option) list \<Rightarrow> bool" where
  "created_once [] = True"
| "created_once (x # xs) =
     ((case fst x of
         CreateSubscription n config \<Rightarrow> snd x = None \<longrightarrow> \<not> list_ex (creates n) xs
       | _ \<Rightarrow> True) \<and>
      created_once xs)"

subsection \<open>One caller alone\<close>

text \<open>
  Run by a single caller with both locks free, the steps above end, after at most ten
  of them, with the registry and the result that \<open>subscription\<close> gives: the two
  models of lines 207 to 260 agree.
\<close>

definition held ::
  "('b, 'rs, 'o) registry \<Rightarrow> 'rs caller \<Rightarrow> ('b, 'rs, 'o) guarded" where
  "held r k = \<lparr>guarded_registry = r, readers = 0, writer = True, callers = [k]\<rparr>"

definition finished_with ::
  "('b, 'rs, 'o) resolved \<Rightarrow> ('b, 'rs, 'o) guarded \<Rightarrow> bool" where
  "finished_with res s \<longleftrightarrow>
     guarded_registry s = fst res \<and> readers s = 0 \<and> \<not> writer s \<and>
     map caller_outcome (callers s) = [Some (snd res)]"

lemma finished_stable:
  assumes "finished_with res s"
  shows "run c cfg schedule s = s"
proof (induction schedule)
  case Nil
  show ?case by simp
next
  case (Cons i schedule)
  from assms obtain k where k: "callers s = [k]" "pc k = Finished"
    by (auto simp: finished_with_def caller_outcome_def split: if_splits)
  then have "advance c cfg i s = None" by (cases i) (simp_all add: advance_def)
  with Cons show ?case by simp
qed

lemma held_step:
  assumes "pc k \<in> {L223, L237, L248, L254, D218}" and "local_step c cfg k r = (k', r')"
  shows "run c cfg (0 # schedule) (held r k) = run c cfg schedule (held r' k')"
  using assms by (auto simp: held_def advance_def)

lemma from_D218:
  assumes "pc k = D218"
  shows "finished_with (deferred_store (arg_name k) (v_sub k) (v_err k) r,
            if panicking k then Panicked else Returned (v_sub k, v_err k))
          (run c cfg (0 # 0 # extra) (held r k))"
proof -
  have f: "finished_with (deferred_store (arg_name k) (v_sub k) (v_err k) r,
            if panicking k then Panicked else Returned (v_sub k, v_err k))
          (run c cfg [0, 0] (held r k))"
    using assms
    by (simp add: held_def advance_def local_step_def finished_with_def caller_outcome_def)
  have "run c cfg (0 # 0 # extra) (held r k) = run c cfg extra (run c cfg [0, 0] (held r k))"
    by simp
  with finished_stable [OF f, of c cfg extra] f show ?thesis by simp
qed

lemma from_return:
  assumes "pc k = D218" and "\<not> panicking k" and "v_sub k = sub" and "v_err k = err"
    and "arg_name k = name"
  shows "finished_with (return_deferred name r sub err) (run c cfg (0 # 0 # extra) (held r k))"
  using from_D218 [OF assms(1), of r c cfg extra] assms(2-5)
  by (simp add: return_deferred_def)

lemma from_L254:
  assumes "pc k = L254" and "\<not> panicking k"
  shows "finished_with (create_subscription c cfg r (arg_name k) (v_t k))
          (run c cfg (0 # 0 # 0 # extra) (held r k))"
proof -
  obtain r1 sub err where
    cs: "call_CreateSubscription c r (arg_name k) ((SubscriptionConfig cfg)\<lparr>Topic := v_t k\<rparr>)
           = (r1, sub, err)"
    by (cases "call_CreateSubscription c r (arg_name k) ((SubscriptionConfig cfg)\<lparr>Topic := v_t k\<rparr>)")
  obtain k' r' where ls: "local_step c cfg k r = (k', r')" by (cases "local_step c cfg k r")
  have k': "pc k' = D218" "arg_name k' = arg_name k" "r' = r1" "v_err k' = err"
    "v_sub k' = (case sub of None \<Rightarrow> None
                 | Some h \<Rightarrow> Some (h\<lparr>sub_ReceiveSettings := ReceiveSettings cfg\<rparr>))"
    "panicking k' = (sub = None)"
    using ls cs assms by (auto simp: local_step_def split: option.splits)
  have "run c cfg (0 # 0 # 0 # extra) (held r k) = run c cfg (0 # 0 # extra) (held r' k')"
    using assms(1) by (intro held_step [OF _ ls]) simp
  moreover have "create_subscription c cfg r (arg_name k) (v_t k) =
      (deferred_store (arg_name k') (v_sub k') (v_err k') r',
       if panicking k' then Panicked else Returned (v_sub k', v_err k'))"
    using cs k' by (cases sub) (simp_all add: create_subscription_def return_deferred_def)
  ultimately show ?thesis using from_D218 [OF k'(1), of r' c cfg extra] by simp
qed

definition after_topic_Exists ::
  "('b, 'rs, 'o) client \<Rightarrow> ('rs, 'o) subscriber_config \<Rightarrow> string \<Rightarrow> string
    \<Rightarrow> ('b, 'rs, 'o) registry \<Rightarrow> topic_handle option \<Rightarrow> ('b, 'rs, 'o) resolved" where
  "after_topic_Exists c cfg name topic r t =
     (case call_CreateTopic c r topic of (r2, t', err') \<Rightarrow>
        (case err' of
           Some e \<Rightarrow> return_deferred name r2 None
                       (Some (Wrap e ''could not create topic for subscription''))
         | None \<Rightarrow> create_subscription c cfg r2 name t'))"

lemma from_L248:
  assumes "pc k = L248" and "\<not> panicking k"
  shows "finished_with (after_topic_Exists c cfg (arg_name k) (arg_topic k) r (v_t k))
          (run c cfg (0 # 0 # 0 # 0 # extra) (held r k))"
proof -
  obtain r1 t err where ct: "call_CreateTopic c r (arg_topic k) = (r1, t, err)"
    by (cases "call_CreateTopic c r (arg_topic k)")
  obtain k' r' where ls: "local_step c cfg k r = (k', r')" by (cases "local_step c cfg k r")
  have st: "run c cfg (0 # 0 # 0 # 0 # extra) (held r k) = run c cfg (0 # 0 # 0 # extra) (held r' k')"
    using assms(1) by (intro held_step [OF _ ls]) simp
  show ?thesis
  proof (cases err)
    case None
    then have k': "pc k' = L254" "\<not> panicking k'" "arg_name k' = arg_name k" "v_t k' = t" "r' = r1"
      using ls ct assms by (auto simp: local_step_def)
    from from_L254 [OF k'(1,2), of c cfg r' extra] st k' ct None
    show ?thesis by (simp add: after_topic_Exists_def)
  next
    case (Some e)
    then have k': "pc k' = D218" "\<not> panicking k'" "v_sub k' = None"
      "v_err k' = Some (Wrap e ''could not create topic for subscription'')"
      "arg_name k' = arg_name k" and r': "r' = r1"
      using ls ct assms by (auto simp: local_step_def)
    from from_return [OF k', of r' c cfg "0 # extra"] st r' ct Some
    show ?thesis by (simp add: after_topic_Exists_def)
  qed
qed

lemma ensure_topic_unfold:
  "ensure_topic c cfg r name topic =
     (case call_topic_Exists c r (client_Topic c topic) of (r1, exists, err) \<Rightarrow>
        (case err of
           Some e \<Rightarrow> return_deferred name r1 None
                      (Some (Wrap e (''could not check if topic '' @ topic @ '' exists'')))
         | None \<Rightarrow>
             if \<not> exists \<and> DoNotCreateTopicIfMissing cfg
             then return_deferred name r1 None (Some (Wrap ErrTopicDoesNotExist topic))
             else if \<not> exists then after_topic_Exists c cfg name topic r1 (Some (client_Topic c topic))
             else create_subscription c cfg r1 name (Some (client_Topic c topic))))"
  by (simp add: ensure_topic_def after_topic_Exists_def Let_def
      split: prod.splits option.splits)

lemma from_L237:
  assumes "pc k = L237" and "\<not> panicking k"
  shows "finished_with (ensure_topic c cfg r (arg_name k) (arg_topic k))
          (run c cfg (0 # 0 # 0 # 0 # 0 # extra) (held r k))"
proof -
  obtain r1 ex err where te: "call_topic_Exists c r (client_Topic c (arg_topic k)) = (r1, ex, err)"
    by (cases "call_topic_Exists c r (client_Topic c (arg_topic k))")
  obtain k' r' where ls: "local_step c cfg k r = (k', r')" by (cases "local_step c cfg k r")
  have st: "run c cfg (0 # 0 # 0 # 0 # 0 # extra) (held r k) =
      run c cfg (0 # 0 # 0 # 0 # extra) (held r' k')"
    using assms(1) by (intro held_step [OF _ ls]) simp
  have r': "r' = r1" using ls te assms
    by (auto simp: local_step_def Let_def split: option.splits if_splits)
  show ?thesis
  proof (cases err)
    case (Some e)
    then have k': "pc k' = D218" "\<not> panicking k'" "v_sub k' = None"
      "v_err k' = Some (Wrap e (''could not check if topic '' @ arg_topic k @ '' exists''))"
      "arg_name k' = arg_name k"
      using ls te assms by (auto simp: local_step_def Let_def)
    from from_return [OF k', of r' c cfg "0 # 0 # extra"] st r' te Some
    show ?thesis by (simp add: ensure_topic_unfold)
  next
    case None
    consider "\<not> ex" "DoNotCreateTopicIfMissing cfg" | "\<not> ex" "\<not> DoNotCreateTopicIfMissing cfg" | "ex"
      by blast
    then show ?thesis
    proof cases
      case 1
      then have k': "pc k' = D218" "\<not> panicking k'" "v_sub k' = None"
        "v_err k' = Some (Wrap ErrTopicDoesNotExist (arg_topic k))" "arg_name k' = arg_name k"
        using ls te assms None by (auto simp: local_step_def Let_def)
      from from_return [OF k', of r' c cfg "0 # 0 # extra"] st r' te None 1
      show ?thesis by (simp add: ensure_topic_unfold)
    next
      case 2
      then have k': "pc k' = L248" "\<not> panicking k'" "arg_name k' = arg_name k"
        "arg_topic k' = arg_topic k" "v_t k' = Some (client_Topic c (arg_topic k))"
        using ls te assms None by (auto simp: local_step_def Let_def)
      from from_L248 [OF k'(1,2), of c cfg r' extra] st r' te None 2 k'
      show ?thesis by (simp add: ensure_topic_unfold)
    next
      case 3
      then have k': "pc k' = L254" "\<not> panicking k'" "arg_name k' = arg_name k"
        "v_t k' = Some (client_Topic c (arg_topic k))"
        using ls te assms None by (auto simp: local_step_def Let_def)
      from from_L254 [OF k'(1,2), of c cfg r' "0 # extra"] st r' te None 3 k'
      show ?thesis by (simp add: ensure_topic_unfold)
    qed
  qed
qed

lemma from_L223:
  assumes "pc k = L223" and "\<not> panicking k"
  shows "finished_with (slow_path c cfg r (arg_name k) (arg_topic k))
          (run c cfg (0 # 0 # 0 # 0 # 0 # 0 # extra) (held r k))"
proof -
  obtain r1 ex err where
    se: "call_sub_Exists c r (client_Subscription c (arg_name k)) = (r1, ex, err)"
    by (cases "call_sub_Exists c r (client_Subscription c (arg_name k))")
  obtain k' r' where ls: "local_step c cfg k r = (k', r')" by (cases "local_step c cfg k r")
  have st: "run c cfg (0 # 0 # 0 # 0 # 0 # 0 # extra) (held r k) =
      run c cfg (0 # 0 # 0 # 0 # 0 # extra) (held r' k')"
    using assms(1) by (intro held_step [OF _ ls]) simp
  have r': "r' = r1" using ls se assms
    by (auto simp: local_step_def Let_def split: option.splits if_splits)
  show ?thesis
  proof (cases err)
    case (Some e)
    then have k': "pc k' = D218" "\<not> panicking k'" "v_sub k' = None"
      "v_err k' = Some (Wrap e (''could not check if subscription '' @ arg_name k @ '' exists''))"
      "arg_name k' = arg_name k"
      using ls se assms by (auto simp: local_step_def Let_def)
    from from_return [OF k', of r' c cfg "0 # 0 # 0 # extra"] st r' se Some
    show ?thesis by (simp add: slow_path_def Let_def)
  next
    case None
    consider "ex" | "\<not> ex" "DoNotCreateSubscriptionIfMissing cfg"
      | "\<not> ex" "\<not> DoNotCreateSubscriptionIfMissing cfg"
      by blast
    then show ?thesis
    proof cases
      case 1
      then have k': "pc k' = D218" "\<not> panicking k'"
        "v_sub k' = Some (client_Subscription c (arg_name k))" "v_err k' = None"
        "arg_name k' = arg_name k"
        using ls se assms None by (auto simp: local_step_def Let_def)
      from from_return [OF k', of r' c cfg "0 # 0 # 0 # extra"] st r' se None 1
      show ?thesis by (simp add: slow_path_def Let_def)
    next
      case 2
      then have k': "pc k' = D218" "\<not> panicking k'" "v_sub k' = None"
        "v_err k' = Some (Wrap ErrSubscriptionDoesNotExist (arg_name k))"
        "arg_name k' = arg_name k"
        using ls se assms None by (auto simp: local_step_def Let_def)
      from from_return [OF k', of r' c cfg "0 # 0 # 0 # extra"] st r' se None 2
      show ?thesis by (simp add: slow_path_def Let_def)
    next
      case 3
      then have k': "pc k' = L237" "\<not> panicking k'" "arg_name k' = arg_name k"
        "arg_topic k' = arg_topic k"
        using ls se assms None by (auto simp: local_step_def Let_def)
      from from_L237 [OF k'(1,2), of c cfg r' extra] st r' se None 3 k'
      show ?thesis by (simp add: slow_path_def Let_def)
    qed
  qed
qed

theorem one_caller_is_subscription:
  "finished_with (subscription c cfg r subscriptionName topicName)
     (run c cfg [0, 0, 0, 0, 0, 0, 0, 0, 0, 0] (start r [(subscriptionName, topicName)]))"
proof (cases "activeSubscriptions r subscriptionName")
  case (Some sub)
  then show ?thesis
    by (simp add: start_def new_caller_def advance_def local_step_def subscription_def
        finished_with_def caller_outcome_def)
next
  case None
  have "run c cfg [0, 0, 0, 0] (start r [(subscriptionName, topicName)]) =
      held r ((new_caller subscriptionName topicName)\<lparr>pc := L223\<rparr>)"
    using None
    by (simp add: start_def new_caller_def advance_def local_step_def held_def)
  then have "run c cfg [0, 0, 0, 0, 0, 0, 0, 0, 0, 0] (start r [(subscriptionName, topicName)]) =
      run c cfg (0 # 0 # 0 # 0 # 0 # 0 # [])
        (held r ((new_caller subscriptionName topicName)\<lparr>pc := L223\<rparr>))"
    by simp
  moreover have "finished_with (slow_path c cfg r subscriptionName topicName)
      (run c cfg (0 # 0 # 0 # 0 # 0 # 0 # [])
        (held r ((new_caller subscriptionName topicName)\<lparr>pc := L223\<rparr>)))"
    using from_L223 [of "(new_caller subscriptionName topicName)\<lparr>pc := L223\<rparr>" c cfg r "[]"]
    by (simp add: new_caller_def)
  ultimately show ?thesis using None by (simp add: subscription_def)
qed

subsection \<open>A race between two first resolves of one name\<close>

text \<open>
  Two callers resolve \<open>orders\<close> at an empty simulated service. In \<open>first_wins\<close>
  both read the map and miss, then the first runs its slow path to the end, and then
  the second takes the write lock.
\<close>

definition example_race :: "(sim_broker, nat, unit) guarded" where
  "example_race =
     start (new_registry (empty_broker [])) [(''orders'', ''orders''), (''orders'', ''orders'')]"

definition first_wins :: "nat list" where
  "first_wins = [0, 0, 0, 1, 1, 1, 0, 0, 0, 0, 0, 0, 0, 1]"

lemma run_append:
  "run c cfg (xs @ ys) s = run c cfg ys (run c cfg xs s)"
  by (induction xs arbitrary: s) simp_all

lemmas guarded_defs =
  advance_def local_step_def start_def new_caller_def example_race_def first_wins_def
  example_registry_def

lemma first_wins_runs:
  "run (sim_client 0) (example_config False False) first_wins example_race =
     \<lparr>guarded_registry = example_registry, readers = 0, writer = True,
      callers =
        [\<lparr>pc = Finished, arg_name = ''orders'', arg_topic = ''orders'',
          v_sub = Some \<lparr>sub_name = ''orders'', sub_ReceiveSettings = 7\<rparr>, v_err = None,
          v_ok = False, v_t = Some \<lparr>topic_name = ''orders''\<rparr>, panicking = False\<rparr>,
         \<lparr>pc = L223, arg_name = ''orders'', arg_topic = ''orders'', v_sub = None,
          v_err = None, v_ok = False, v_t = None, panicking = False\<rparr>]\<rparr>"
  by (simp add: guarded_defs registry_defs sim_defs Let_def)

subsection \<open>What the lock guarantees\<close>

text \<open>
  At most one caller is between the write lock of line 215 and the unlock of line 216
  (\<open>mutex\<close>). Against the simulated service, every successful creation in the log is
  of a subscription the service has, and a caller that has seen its subscription
  missing and is on its way to create it (lines 237 to 256) is right about that: nobody
  else can have created it meanwhile (\<open>consistent\<close>).
\<close>

definition in_section :: "pc \<Rightarrow> bool" where
  "in_section p \<longleftrightarrow> p \<in> {L223, L237, L248, L254, D218, D216}"

definition must_create :: "pc \<Rightarrow> bool" where
  "must_create p \<longleftrightarrow> p \<in> {L237, L248, L254}"

definition mutex :: "('b, 'rs, 'o) guarded \<Rightarrow> bool" where
  "mutex s \<longleftrightarrow>
     (\<forall>i < length (callers s). \<forall>j < length (callers s).
        in_section (pc (callers s ! i)) \<and> in_section (pc (callers s ! j)) \<longrightarrow> i = j) \<and>
     ((\<exists>i < length (callers s). in_section (pc (callers s ! i))) \<longrightarrow> writer s)"

definition names :: "(sim_broker, 'rs, 'o) registry \<Rightarrow> string set" where
  "names r = set (map fst (sim_subscriptions (broker r)))"

definition consistent :: "(sim_broker, 'rs, 'o) guarded \<Rightarrow> bool" where
  "consistent s \<longleftrightarrow>
     (\<forall>x \<in> set (calls (guarded_registry s)). \<forall>n. created n x \<longrightarrow> n \<in> names (guarded_registry s)) \<and>
     (\<forall>k \<in> set (callers s). must_create (pc k) \<longrightarrow> arg_name k \<notin> names (guarded_registry s)) \<and>
     created_once (calls (guarded_registry s))"

lemma created_once_append:
  "created_once (xs @ [x]) \<longleftrightarrow>
     created_once xs \<and> (\<forall>n. creates n x \<longrightarrow> \<not> list_ex (created n) xs)"
proof (induction xs)
  case Nil
  show ?case by (cases x; cases "fst x") (auto simp: created_def)
next
  case (Cons y ys)
  obtain c e where y: "y = (c, e)" by (cases y)
  show ?case
  proof (cases c)
    case (CreateSubscription n config)
    then show ?thesis using Cons y
      by (cases x; cases "fst x") (auto simp: created_def list_ex_iff)
  qed (use Cons y in \<open>auto simp: created_def list_ex_iff\<close>)
qed

lemma must_create_in_section: "must_create p \<Longrightarrow> in_section p"
  by (auto simp: must_create_def in_section_def)

lemma mutex_alone:
  assumes "mutex s" and "i < length (callers s)" and "in_section (pc (callers s ! i))"
    and "j < length (callers s)" and "j \<noteq> i"
  shows "\<not> in_section (pc (callers s ! j))"
  using assms unfolding mutex_def by blast

lemma mutex_free:
  assumes "mutex s" and "\<not> writer s" and "j < length (callers s)"
  shows "\<not> in_section (pc (callers s ! j))"
  using assms unfolding mutex_def by blast

lemma mutex_same:
  assumes "mutex s" and "i < length (callers s)"
    and "in_section (pc k') = in_section (pc (callers s ! i))"
  shows "mutex (s\<lparr>guarded_registry := r, callers := (callers s)[i := k']\<rparr>)"
    and "mutex (s\<lparr>readers := n, callers := (callers s)[i := k']\<rparr>)"
proof -
  have *: "in_section (pc ((callers s)[i := k'] ! a)) = in_section (pc (callers s ! a))"
    if "a < length (callers s)" for a
    using that assms(2,3) by (cases "a = i") simp_all
  show "mutex (s\<lparr>guarded_registry := r, callers := (callers s)[i := k']\<rparr>)"
    and "mutex (s\<lparr>readers := n, callers := (callers s)[i := k']\<rparr>)"
    using assms(1) * unfolding mutex_def by auto
qed

lemma mutex_enter:
  assumes "mutex s" and "\<not> writer s" and "i < length (callers s)"
  shows "mutex (s\<lparr>writer := True, callers := (callers s)[i := k']\<rparr>)"
proof -
  have "\<not> in_section (pc ((callers s)[i := k'] ! a))"
    if "a < length (callers s)" "a \<noteq> i" for a
    using that mutex_free [OF assms(1,2)] by simp
  then show ?thesis unfolding mutex_def by (simp; metis)
qed

lemma mutex_leave:
  assumes "mutex s" and "i < length (callers s)" and "in_section (pc (callers s ! i))"
    and "\<not> in_section (pc k')"
  shows "mutex (s\<lparr>writer := w, callers := (callers s)[i := k']\<rparr>)"
proof -
  have "\<not> in_section (pc ((callers s)[i := k'] ! a))" if "a < length (callers s)" for a
    using that mutex_alone [OF assms(1,2,3)] assms(2,4) by (cases "a = i") simp_all
  then show ?thesis unfolding mutex_def by auto
qed

lemma sim_sub_Exists_effect:
  assumes "call_sub_Exists (sim_client rs) r sub = (r1, ex, err)"
  shows "names r1 = names r"
    and "calls r1 = calls r @ [(SubscriptionExists (sub_name sub), err)]"
    and "err = None \<Longrightarrow> ex = (sub_name sub \<in> names r)"
  using assms
  by (auto simp: call_sub_Exists_def sim_client_def sim_sub_Exists_def next_fault_def names_def
      split: list.splits option.splits if_splits)

lemma sim_topic_Exists_effect:
  assumes "call_topic_Exists (sim_client rs) r t = (r1, ex, err)"
  shows "names r1 = names r" and "calls r1 = calls r @ [(TopicExists (topic_name t), err)]"
  using assms
  by (auto simp: call_topic_Exists_def sim_client_def sim_topic_Exists_def next_fault_def names_def
      split: list.splits option.splits if_splits)

lemma sim_CreateTopic_effect:
  assumes "call_CreateTopic (sim_client rs) r topicName = (r1, t, err)"
  shows "names r1 = names r" and "calls r1 = calls r @ [(CreateTopic topicName, err)]"
  using assms
  by (auto simp: call_CreateTopic_def sim_client_def sim_CreateTopic_def next_fault_def names_def
      split: list.splits option.splits if_splits)

lemma sim_CreateSubscription_effect:
  assumes "call_CreateSubscription (sim_client rs) r name config = (r1, sub, err)"
  shows "names r \<subseteq> names r1"
    and "calls r1 = calls r @ [(CreateSubscription name config, err)]"
    and "err = None \<Longrightarrow> name \<in> names r1"
  using assms
  by (auto simp: call_CreateSubscription_def sim_client_def sim_CreateSubscription_def
      next_fault_def names_def split: list.splits option.splits if_splits)

lemma sim_client_handles:
  "client_Subscription (sim_client rs) n = \<lparr>sub_name = n, sub_ReceiveSettings = rs\<rparr>"
  "client_Topic (sim_client rs) n = \<lparr>topic_name = n\<rparr>"
  by (simp_all add: sim_client_def)

definition step_effect ::
  "'rs caller \<Rightarrow> (sim_broker, 'rs, 'o) registry \<Rightarrow> 'rs caller \<Rightarrow> (sim_broker, 'rs, 'o) registry
    \<Rightarrow> bool" where
  "step_effect k r k' r' \<longleftrightarrow>
     names r \<subseteq> names r' \<and> arg_name k' = arg_name k \<and> in_section (pc k') \<and>
     (must_create (pc k') \<longrightarrow>
        names r' = names r \<and> (must_create (pc k) \<or> (pc k = L223 \<and> arg_name k \<notin> names r))) \<and>
     (calls r' = calls r \<or>
      (\<exists>x. calls r' = calls r @ [x] \<and>
         (\<forall>n. creates n x \<longrightarrow> pc k = L254 \<and> n = arg_name k) \<and>
         (\<forall>n. created n x \<longrightarrow> n \<in> names r')))"

lemma effect_L223:
  fixes rs :: 'rs
  assumes "local_step (sim_client rs) cfg k r = (k', r')" and "pc k = L223"
  shows "step_effect k r k' r'"
proof -
  obtain sub :: "'rs subscription_handle" where
    sub: "sub = \<lparr>sub_name = arg_name k, sub_ReceiveSettings = rs\<rparr>" by simp
  have n: "sub_name sub = arg_name k" by (simp add: sub)
  obtain r1 ex err where c: "call_sub_Exists (sim_client rs) r sub = (r1, ex, err)"
    by (cases "call_sub_Exists (sim_client rs) r sub")
  note e = sim_sub_Exists_effect [OF c]
  have r': "r' = r1" using assms c [unfolded sub]
    by (auto simp: local_step_def Let_def sim_client_handles split: option.splits if_splits)
  have k': "arg_name k' = arg_name k" "pc k' = D218 \<or> (pc k' = L237 \<and> err = None \<and> \<not> ex)"
    using assms c [unfolded sub]
    by (auto simp: local_step_def Let_def sim_client_handles split: option.splits if_splits)
  show ?thesis
    unfolding step_effect_def r'
    using e k' n assms(2)
    by (auto simp: in_section_def must_create_def created_def)
qed

lemma effect_L237:
  assumes "local_step (sim_client rs) cfg k r = (k', r')" and "pc k = L237"
  shows "step_effect k r k' r'"
proof -
  obtain r1 ex err where
    c: "call_topic_Exists (sim_client rs) r \<lparr>topic_name = arg_topic k\<rparr> = (r1, ex, err)"
    by (cases "call_topic_Exists (sim_client rs) r \<lparr>topic_name = arg_topic k\<rparr>")
  note e = sim_topic_Exists_effect [OF c]
  have r': "r' = r1" using assms c
    by (auto simp: local_step_def Let_def sim_client_handles split: option.splits if_splits)
  have k': "arg_name k' = arg_name k" "pc k' = D218 \<or> pc k' = L248 \<or> pc k' = L254"
    using assms c
    by (auto simp: local_step_def Let_def sim_client_handles split: option.splits if_splits)
  show ?thesis
    unfolding step_effect_def r'
    using e k' assms(2)
    by (auto simp: in_section_def must_create_def created_def)
qed

lemma effect_L248:
  assumes "local_step (sim_client rs) cfg k r = (k', r')" and "pc k = L248"
  shows "step_effect k r k' r'"
proof -
  obtain r1 t err where c: "call_CreateTopic (sim_client rs) r (arg_topic k) = (r1, t, err)"
    by (cases "call_CreateTopic (sim_client rs) r (arg_topic k)")
  note e = sim_CreateTopic_effect [OF c]
  have r': "r' = r1" using assms c
    by (auto simp: local_step_def split: option.splits)
  have k': "arg_name k' = arg_name k" "pc k' = D218 \<or> pc k' = L254"
    using assms c
    by (auto simp: local_step_def split: option.splits)
  show ?thesis
    unfolding step_effect_def r'
    using e k' assms(2)
    by (auto simp: in_section_def must_create_def created_def)
qed

lemma effect_L254:
  assumes "local_step (sim_client rs) cfg k r = (k', r')" and "pc k = L254"
  shows "step_effect k r k' r'"
proof -
  obtain r1 sub err where
    c: "call_CreateSubscription (sim_client rs) r (arg_name k)
          ((SubscriptionConfig cfg)\<lparr>Topic := v_t k\<rparr>) = (r1, sub, err)"
    by (cases "call_CreateSubscription (sim_client rs) r (arg_name k)
          ((SubscriptionConfig cfg)\<lparr>Topic := v_t k\<rparr>)")
  note e = sim_CreateSubscription_effect [OF c]
  have r': "r' = r1" using assms c
    by (auto simp: local_step_def Let_def split: option.splits)
  have k': "arg_name k' = arg_name k" "pc k' = D218"
    using assms c
    by (auto simp: local_step_def Let_def split: option.splits)
  show ?thesis
    unfolding step_effect_def r'
    using e k' assms(2)
    by (auto simp: in_section_def must_create_def created_def)
qed

lemma effect_D218:
  assumes "local_step (sim_client rs) cfg k r = (k', r')" and "pc k = D218"
  shows "step_effect k r k' r'"
  using assms
  by (auto simp: local_step_def step_effect_def deferred_store_def names_def in_section_def
      must_create_def)

lemma effect_L209:
  assumes "local_step c cfg k r = (k', r')" and "pc k = L209"
  shows "r' = r" and "pc k' = L210"
  using assms by (auto simp: local_step_def)

lemma consistent_local:
  assumes m: "mutex s" and co: "consistent s" and i: "i < length (callers s)"
    and sec: "in_section (pc (callers s ! i))"
    and eff: "step_effect (callers s ! i) (guarded_registry s) k' r'"
  shows "consistent (s\<lparr>guarded_registry := r', callers := (callers s)[i := k']\<rparr>)"
proof -
  let ?k = "callers s ! i" and ?r = "guarded_registry s"
  from co have c1: "\<forall>x \<in> set (calls ?r). \<forall>n. created n x \<longrightarrow> n \<in> names ?r"
    and c2: "\<forall>k \<in> set (callers s). must_create (pc k) \<longrightarrow> arg_name k \<notin> names ?r"
    and c3: "created_once (calls ?r)"
    by (simp_all add: consistent_def)
  from eff have sub: "names ?r \<subseteq> names r'" and nm: "arg_name k' = arg_name ?k"
    and mc: "must_create (pc k') \<Longrightarrow>
        names r' = names ?r \<and> (must_create (pc ?k) \<or> (pc ?k = L223 \<and> arg_name ?k \<notin> names ?r))"
    and log: "calls r' = calls ?r \<or>
      (\<exists>x. calls r' = calls ?r @ [x] \<and>
         (\<forall>n. creates n x \<longrightarrow> pc ?k = L254 \<and> n = arg_name ?k) \<and>
         (\<forall>n. created n x \<longrightarrow> n \<in> names r'))"
    by (simp_all add: step_effect_def)
  have ki: "?k \<in> set (callers s)" using i by simp
  have d1: "\<forall>x \<in> set (calls r'). \<forall>n. created n x \<longrightarrow> n \<in> names r'"
  proof (intro ballI allI impI)
    fix x n assume x: "x \<in> set (calls r')" and cx: "created n x"
    from log x have "x \<in> set (calls ?r) \<or> (\<forall>n. created n x \<longrightarrow> n \<in> names r')" by auto
    then show "n \<in> names r'"
    proof
      assume "x \<in> set (calls ?r)"
      with c1 cx have "n \<in> names ?r" by blast
      with sub show ?thesis by blast
    next
      assume "\<forall>n. created n x \<longrightarrow> n \<in> names r'"
      with cx show ?thesis by blast
    qed
  qed
  have d2: "\<forall>k \<in> set ((callers s)[i := k']). must_create (pc k) \<longrightarrow> arg_name k \<notin> names r'"
  proof (intro ballI impI)
    fix k assume k: "k \<in> set ((callers s)[i := k'])" and mk: "must_create (pc k)"
    from k obtain a where a: "a < length (callers s)" "k = (callers s)[i := k'] ! a"
      by (auto simp: in_set_conv_nth)
    show "arg_name k \<notin> names r'"
    proof (cases "a = i")
      case True
      then have "k = k'" using a i by simp
      with mk mc c2 ki nm show ?thesis by auto
    next
      case False
      then have "k = callers s ! a" using a by simp
      with mutex_alone [OF m i sec a(1) False] mk must_create_in_section show ?thesis by auto
    qed
  qed
  have d3: "created_once (calls r')"
  proof -
    from log show ?thesis
    proof
      assume "calls r' = calls ?r"
      with c3 show ?thesis by simp
    next
      assume "\<exists>x. calls r' = calls ?r @ [x] \<and>
         (\<forall>n. creates n x \<longrightarrow> pc ?k = L254 \<and> n = arg_name ?k) \<and>
         (\<forall>n. created n x \<longrightarrow> n \<in> names r')"
      then obtain x where x: "calls r' = calls ?r @ [x]"
        and cr: "\<forall>n. creates n x \<longrightarrow> pc ?k = L254 \<and> n = arg_name ?k"
        by blast
      have "\<not> list_ex (created n) (calls ?r)" if "creates n x" for n
      proof -
        from cr that have "pc ?k = L254" "n = arg_name ?k" by simp_all
        then have "n \<notin> names ?r" using c2 ki by (auto simp: must_create_def)
        with c1 show ?thesis by (auto simp: list_ex_iff)
      qed
      with c3 x show ?thesis by (simp add: created_once_append)
    qed
  qed
  show ?thesis using d1 d2 d3 by (simp add: consistent_def)
qed

lemma consistent_outside:
  assumes co: "consistent s" and i: "i < length (callers s)" and "\<not> must_create (pc k')"
  shows "consistent (s\<lparr>callers := (callers s)[i := k']\<rparr>)"
proof -
  have "\<forall>k \<in> set ((callers s)[i := k']).
      must_create (pc k) \<longrightarrow> arg_name k \<notin> names (guarded_registry s)"
  proof (intro ballI impI)
    fix k assume k: "k \<in> set ((callers s)[i := k'])" and mk: "must_create (pc k)"
    from k have "k = k' \<or> k \<in> set (callers s)"
      using set_update_subset_insert [of "callers s" i k'] by auto
    with mk assms(3) co show "arg_name k \<notin> names (guarded_registry s)"
      by (auto simp: consistent_def)
  qed
  with co show ?thesis by (simp add: consistent_def)
qed

lemma consistent_fields:
  "consistent (s\<lparr>readers := n\<rparr>) = consistent s"
  "consistent (s\<lparr>writer := w\<rparr>) = consistent s"
  by (simp_all add: consistent_def)

lemma advance_invariant:
  fixes s :: "(sim_broker, 'rs, 'o) guarded"
  assumes m: "mutex s" and co: "consistent s" and a: "advance (sim_client rs) cfg i s = Some s'"
  shows "mutex s' \<and> consistent s'"
proof -
  from a have i: "i < length (callers s)" by (simp add: advance_def split: if_splits)
  obtain k where k: "k = callers s ! i" by simp
  obtain k' r' where ls: "local_step (sim_client rs) cfg k (guarded_registry s) = (k', r')"
    by (cases "local_step (sim_client rs) cfg k (guarded_registry s)")
  have loc: "s' = s\<lparr>guarded_registry := r', callers := (callers s)[i := k']\<rparr>"
    if "pc k \<in> {L209, L223, L237, L248, L254, D218}"
    using that a i k ls by (auto simp: advance_def Let_def)
  have insec: "mutex s' \<and> consistent s'"
    if p: "pc k \<in> {L223, L237, L248, L254, D218}" and e: "step_effect k (guarded_registry s) k' r'"
  proof -
    have sec: "in_section (pc (callers s ! i))" using p k by (auto simp: in_section_def)
    have sec': "in_section (pc k')" using e by (simp add: step_effect_def)
    have s': "s' = s\<lparr>guarded_registry := r', callers := (callers s)[i := k']\<rparr>"
      using loc p by auto
    have "mutex s'" unfolding s' using m i sec sec' by (intro mutex_same) simp_all
    moreover have "consistent s'" unfolding s'
      using m co i sec e [unfolded k] by (rule consistent_local)
    ultimately show ?thesis by simp
  qed
  show ?thesis
  proof (cases "pc k")
    case L208
    then have s': "s' = s\<lparr>readers := readers s + 1, callers := (callers s)[i := k\<lparr>pc := L209\<rparr>]\<rparr>"
      using a i k by (auto simp: advance_def Let_def split: if_splits)
    have "mutex s'" unfolding s' using m i L208 k
      by (intro mutex_same) (simp_all add: in_section_def)
    moreover have "consistent s'"
      using consistent_outside [OF co i, of "k\<lparr>pc := L209\<rparr>"]
      by (simp add: s' must_create_def consistent_def)
    ultimately show ?thesis by simp
  next
    case L209
    from effect_L209 [OF ls L209] have r: "r' = guarded_registry s" and p: "pc k' = L210" .
    have s': "s' = s\<lparr>guarded_registry := guarded_registry s, callers := (callers s)[i := k']\<rparr>"
      using loc L209 r by simp
    have "mutex s'" unfolding s' using m i L209 k p
      by (intro mutex_same) (simp_all add: in_section_def)
    moreover have "consistent s'"
      using consistent_outside [OF co i, of k'] p
      by (simp add: s' must_create_def consistent_def)
    ultimately show ?thesis by simp
  next
    case L210
    then have s': "s' = s\<lparr>readers := readers s - 1,
        callers := (callers s)[i := k\<lparr>pc := (if v_ok k then Finished else L215)\<rparr>]\<rparr>"
      using a i k by (auto simp: advance_def Let_def)
    have "mutex s'" unfolding s' using m i L210 k
      by (intro mutex_same) (simp_all add: in_section_def)
    moreover have "consistent s'"
      using consistent_outside [OF co i, of "k\<lparr>pc := (if v_ok k then Finished else L215)\<rparr>"]
      by (simp add: s' must_create_def consistent_def)
    ultimately show ?thesis by simp
  next
    case L215
    then have w: "\<not> writer s"
      and s': "s' = s\<lparr>writer := True, callers := (callers s)[i := k\<lparr>pc := L223\<rparr>]\<rparr>"
      using a i k by (auto simp: advance_def Let_def split: if_splits)
    have "mutex s'" unfolding s' using m w i by (rule mutex_enter)
    moreover have "consistent s'"
      using consistent_outside [OF co i, of "k\<lparr>pc := L223\<rparr>"]
      by (simp add: s' must_create_def consistent_def)
    ultimately show ?thesis by simp
  next
    case L223
    with insec effect_L223 [OF ls] show ?thesis by simp
  next
    case L237
    with insec effect_L237 [OF ls] show ?thesis by simp
  next
    case L248
    with insec effect_L248 [OF ls] show ?thesis by simp
  next
    case L254
    with insec effect_L254 [OF ls] show ?thesis by simp
  next
    case D218
    with insec effect_D218 [OF ls] show ?thesis by simp
  next
    case D216
    then have s': "s' = s\<lparr>writer := False, callers := (callers s)[i := k\<lparr>pc := Finished\<rparr>]\<rparr>"
      using a i k by (auto simp: advance_def Let_def)
    have "mutex s'" unfolding s' using m i D216 k
      by (intro mutex_leave) (simp_all add: in_section_def)
    moreover have "consistent s'"
      using consistent_outside [OF co i, of "k\<lparr>pc := Finished\<rparr>"]
      by (simp add: s' must_create_def consistent_def)
    ultimately show ?thesis by simp
  next
    case Finished
    then show ?thesis using a i k by (simp add: advance_def Let_def)
  qed
qed

lemma run_invariant:
  fixes s :: "(sim_broker, 'rs, 'o) guarded"
  shows "mutex s \<Longrightarrow> consistent s \<Longrightarrow>
    mutex (run (sim_client rs) cfg schedule s) \<and> consistent (run (sim_client rs) cfg schedule s)"
proof (induction schedule arbitrary: s)
  case Nil
  then show ?case by simp
next
  case (Cons i schedule)
  show ?case
  proof (cases "advance (sim_client rs) cfg i s")
    case None
    then show ?thesis using Cons by simp
  next
    case (Some s')
    from advance_invariant [OF Cons.prems Some] Cons.IH [of s'] Some show ?thesis by simp
  qed
qed

lemma start_invariant:
  fixes s :: "(sim_broker, 'rs, 'o) guarded"
  assumes "s = start (new_registry b) args"
  shows "mutex s" and "consistent s"
proof -
  have "callers s = map (\<lambda>(n, t). new_caller n t) args"
    using assms by (simp add: start_def)
  then have all: "\<forall>k \<in> set (callers s). pc k = L208"
    by (auto simp: new_caller_def)
  then have p: "pc (callers s ! i) = L208" if "i < length (callers s)" for i
    using that by simp
  show "mutex s"
    unfolding mutex_def using p by (auto simp: in_section_def)
  have "calls (guarded_registry s) = []"
    using assms by (simp add: start_def new_registry_def)
  moreover have "\<forall>k \<in> set (callers s). \<not> must_create (pc k)"
    using all by (simp add: must_create_def)
  ultimately show "consistent s"
    unfolding consistent_def by simp
qed

text \<open>
  Claim C1, as the code has it. The slow path does not look at the map again once
  it holds the write lock: it asks the broker whether the subscription exists. What
  keeps two first resolves of one name from creating two subscriptions is that the whole
  slow path runs under the write lock and that the broker reports a created
  subscription as existing. For any number of concurrent resolves of any names, in
  every schedule: at most one caller is in the slow path at a time, and once a
  \<^verbatim>\<open>CreateSubscription\<close> for a name has succeeded, no \<^verbatim>\<open>CreateSubscription\<close> for that
  name is called again.
\<close>

theorem concurrent_resolves_create_once:
  fixes b :: sim_broker and cfg :: "('rs, 'o) subscriber_config"
  shows "mutex (run (sim_client rs) cfg schedule (start (new_registry b) args)) \<and>
         created_once (calls (guarded_registry
           (run (sim_client rs) cfg schedule (start (new_registry b) args))))"
proof -
  obtain s :: "(sim_broker, 'rs, 'o) guarded" where s: "s = start (new_registry b) args"
    by simp
  from run_invariant [OF start_invariant [OF s], of rs cfg schedule]
  show ?thesis by (simp add: consistent_def s)
qed

theorem concurrent_resolves_create_once_witness:
  "mutex (run (sim_client 0) (example_config False False) (first_wins @ [1, 1, 1]) example_race) \<and>
   calls (guarded_registry
     (run (sim_client 0) (example_config False False) (first_wins @ [1, 1, 1]) example_race)) =
     [(SubscriptionExists ''orders'', None), (TopicExists ''orders'', None),
      (CreateTopic ''orders'', None),
      (CreateSubscription ''orders''
         \<lparr>Topic = Some \<lparr>topic_name = ''orders''\<rparr>, Options = ()\<rparr>, None),
      (SubscriptionExists ''orders'', None)] \<and>
   created_once
     [(SubscriptionExists ''orders'', None), (TopicExists ''orders'', None),
      (CreateTopic ''orders'', None),
      (CreateSubscription ''orders''
         \<lparr>Topic = Some \<lparr>topic_name = ''orders''\<rparr>, Options = ()\<rparr>, None),
      (SubscriptionExists ''orders'', None) :: unit call \<times> error option]"
proof -
  have c: "calls (guarded_registry
     (run (sim_client 0) (example_config False False) (first_wins @ [1, 1, 1]) example_race)) =
     [(SubscriptionExists ''orders'', None), (TopicExists ''orders'', None),
      (CreateTopic ''orders'', None),
      (CreateSubscription ''orders''
         \<lparr>Topic = Some \<lparr>topic_name = ''orders''\<rparr>, Options = ()\<rparr>, None),
      (SubscriptionExists ''orders'', None)]"
    unfolding run_append first_wins_runs
    by (simp add: advance_def local_step_def example_registry_def registry_defs sim_defs Let_def)
  from concurrent_resolves_create_once [where rs = 0 and cfg = "example_config False False"
      and schedule = "first_wins @ [1, 1, 1]" and b = "empty_broker []"
      and args = "[(''orders'', ''orders''), (''orders'', ''orders'')]"]
  have "mutex (run (sim_client 0) (example_config False False) (first_wins @ [1, 1, 1]) example_race) \<and>
     created_once (calls (guarded_registry
       (run (sim_client 0) (example_config False False) (first_wins @ [1, 1, 1]) example_race)))"
    by (simp add: example_race_def)
  then show ?thesis unfolding c using c by simp
qed

text \<open>
  Claim C1 as stated has the slow path re-check the map under the write lock before
  it queries the broker. It does not: after \<open>first_wins\<close> the second caller holds
  the write lock at line 223 while the map has the first caller's handle under
  \<open>orders\<close>, and its next step is the existence query to the broker. It then
  returns a handle of its own, without the configured receive settings, not the handle
  in the map.
\<close>

theorem second_caller_asks_the_broker:
  "writer (run (sim_client 0) (example_config False False) first_wins example_race) \<and>
   pc (callers (run (sim_client 0) (example_config False False) first_wins example_race) ! 1) = L223 \<and>
   activeSubscriptions
     (guarded_registry (run (sim_client 0) (example_config False False) first_wins example_race))
     ''orders'' = Some (Some \<lparr>sub_name = ''orders'', sub_ReceiveSettings = 7\<rparr>) \<and>
   calls (guarded_registry
     (run (sim_client 0) (example_config False False) [1]
       (run (sim_client 0) (example_config False False) first_wins example_race))) =
     calls (guarded_registry
       (run (sim_client 0) (example_config False False) first_wins example_race)) @
     [(SubscriptionExists ''orders'', None)] \<and>
   map caller_outcome (callers
     (run (sim_client 0) (example_config False False) [1, 1, 1]
       (run (sim_client 0) (example_config False False) first_wins example_race))) =
     [Some (Returned (Some \<lparr>sub_name = ''orders'', sub_ReceiveSettings = 7\<rparr>, None)),
      Some (Returned (Some \<lparr>sub_name = ''orders'', sub_ReceiveSettings = 0\<rparr>, None))]"
  unfolding first_wins_runs
  by (simp add: advance_def local_step_def caller_outcome_def example_registry_def
      registry_defs sim_defs Let_def)

section \<open>Concurrent resolves: the cache\<close>










subsection \<open>The steps of a call, one by one\<close>





















subsection \<open>The concrete runs\<close>








subsection \<open>Cache idempotence\<close>




end
